theory Spec2Isabelle
  imports Main "HOL-Library.Word"
begin

unbundle bit_operations_syntax

section \<open>Data model of the event loop (EventLoop.h)\<close>

text \<open>
  Timer objects and async-signal objects live in user memory and are linked into the
  loop's structures by pointer. The model names each object by a natural number (its
  address) and keeps the objects in a store that is part of the loop state.
\<close>

type_synonym timer_ref = nat
type_synonym asig_ref = nat
type_synonym EventLoopTime = int
type_synonym EventLoopDuration = int

text \<open>
  Modelled from the spec: \<open>EventLoopTime\<close>, \<open>EventLoopDuration\<close> and the clock are declared
  in \<open>EventLoopCommon.h\<close>, which is not among the sources. The spec (section 3) says that
  \<open>Time\<close> is an instant on a monotonic clock, that \<open>Duration\<close> is a signed offset, and
  that arithmetic saturates at the sentinel \<open>Time::MAX\<close>. Instants are counted in clock
  ticks since the epoch; the sentinel is the largest 64-bit signed tick count, and a
  default-constructed instant is the epoch itself.
\<close>

definition EventLoopTime_max :: EventLoopTime where
  "EventLoopTime_max = 9223372036854775807"

definition EventLoopTime_default :: EventLoopTime where
  "EventLoopTime_default = 0"

definition time_plus :: "EventLoopTime \<Rightarrow> EventLoopDuration \<Rightarrow> EventLoopTime" where
  "time_plus t d = (if EventLoopTime_max \<le> t + d then EventLoopTime_max else t + d)"

subsection \<open>Timer states and their encoding\<close>

datatype TimerState = Idle | Dispatch | TempUnset | TempSet | Pending

definition TimerStateOrderBits :: nat where
  "TimerStateOrderBits = 2"

definition TimerStateOrderMask :: "8 word" where
  "TimerStateOrderMask = push_bit TimerStateOrderBits 1 - 1"

text \<open>The underlying \<open>std::uint8_t\<close> value of each enumerator.\<close>

fun TimerState_value :: "TimerState \<Rightarrow> 8 word" where
  "TimerState_value Idle = 0"
| "TimerState_value Dispatch = 1"
| "TimerState_value TempUnset = 2"
| "TimerState_value TempSet = 2 OR push_bit TimerStateOrderBits 1"
| "TimerState_value Pending = 3"

record EventLoopTimer =
  m_time :: EventLoopTime
  m_state :: TimerState

datatype action =
    SetAt timer_ref EventLoopTime
  | SetAfter timer_ref EventLoopDuration
  | Unset timer_ref
  | NewTimer timer_ref
  | DeleteTimer timer_ref
  | Stop
  | Signal asig_ref
  | ResetSignal asig_ref

text \<open>
  Calls that leave the dispatch core (into the heap library, the provider, the clock and
  user handlers) are effects; the model records them, in order, in a trace.
\<close>

datatype event =
    HeapInsert timer_ref
  | HeapRemove timer_ref
  | HeapFixup timer_ref
  | TimerExpired timer_ref
  | AsyncHandler asig_ref
  | Wakeup
  | GetTime EventLoopTime
  | DispatchEvents
  | WaitForEvents EventLoopTime bool
  | Call action

datatype error = AssertionFailed

record EventLoop =
  m_timer_heap :: "timer_ref list"
  m_stop :: bool
  m_event_time :: EventLoopTime
  m_last_wait_time :: EventLoopTime
  m_pending_async_list :: "asig_ref list"
  m_dispatch_async_list :: "asig_ref list"
  timers :: "timer_ref \<Rightarrow> EventLoopTimer"
  asig_removed :: "asig_ref \<Rightarrow> bool"
  trace :: "event list"

section \<open>The timer comparator (EventLoop::TimerCompare)\<close>

definition state_order :: "TimerState \<Rightarrow> 8 word" where
  "state_order s = TimerState_value s AND TimerStateOrderMask"

definition compareEntries :: "EventLoopTimer \<Rightarrow> EventLoopTimer \<Rightarrow> int" where
  "compareEntries tim1 tim2 =
     (let order1 = state_order (m_state tim1);
          order2 = state_order (m_state tim2)
      in if order1 \<noteq> order2 then (if order1 < order2 then - 1 else 1)
         else if m_time tim1 \<noteq> m_time tim2
              then (if m_time tim1 < m_time tim2 then - 1 else 1)
         else 0)"

text \<open>
  The comparison of a key with a heap entry, used by the heap's search. Its assertion
  that the entry is \<open>Pending\<close> is an error result.
\<close>

definition compareKeyEntry :: "EventLoopTime \<Rightarrow> EventLoopTimer \<Rightarrow> error + int" where
  "compareKeyEntry time1 tim2 =
     (if m_state tim2 \<noteq> Pending then Inl AssertionFailed
      else if time1 \<noteq> m_time tim2 then Inr (if time1 < m_time tim2 then - 1 else 1)
      else Inr 0)"

section \<open>The timer heap\<close>

text \<open>
  Modelled from the spec: the intrusive heap (\<open>LinkedHeap.h\<close>) is not among the sources.
  The spec (section 4.B) describes a min-heap keyed by the comparator, with \<open>insert\<close>,
  \<open>remove\<close>, \<open>fixup\<close> (re-establish heap order after a key change), \<open>first\<close> and
  \<open>find_all_le\<close>. The model keeps the linked timers in a list ordered by the comparator.
  The keys are read from the timer objects when a node is placed, so a key that changes
  without \<open>fixup\<close> leaves the node where it was. Among equal keys an inserted node goes
  behind the ones already there. Removing a node unlinks it: it is in the heap no more.
\<close>

fun heap_insert :: "(timer_ref \<Rightarrow> EventLoopTimer) \<Rightarrow> timer_ref \<Rightarrow> timer_ref list \<Rightarrow> timer_ref list" where
  "heap_insert ts x [] = [x]"
| "heap_insert ts x (y # ys) =
     (if compareEntries (ts x) (ts y) < 0 then x # y # ys else y # heap_insert ts x ys)"

definition heap_remove :: "timer_ref \<Rightarrow> timer_ref list \<Rightarrow> timer_ref list" where
  "heap_remove x h = removeAll x h"

definition heap_fixup :: "(timer_ref \<Rightarrow> EventLoopTimer) \<Rightarrow> timer_ref \<Rightarrow> timer_ref list \<Rightarrow> timer_ref list" where
  "heap_fixup ts x h = (if x \<in> set h then heap_insert ts x (removeAll x h) else h)"

definition heap_first :: "timer_ref list \<Rightarrow> timer_ref option" where
  "heap_first h = (case h of [] \<Rightarrow> None | x # _ \<Rightarrow> Some x)"

text \<open>The three calls as the loop makes them: on the loop's heap, with the timers' current keys.\<close>

definition timer_heap_insert :: "timer_ref \<Rightarrow> EventLoop \<Rightarrow> EventLoop" where
  "timer_heap_insert tim l =
     l\<lparr>m_timer_heap := heap_insert (timers l) tim (m_timer_heap l),
       trace := trace l @ [HeapInsert tim]\<rparr>"

definition timer_heap_remove :: "timer_ref \<Rightarrow> EventLoop \<Rightarrow> EventLoop" where
  "timer_heap_remove tim l =
     l\<lparr>m_timer_heap := heap_remove tim (m_timer_heap l),
       trace := trace l @ [HeapRemove tim]\<rparr>"

definition timer_heap_fixup :: "timer_ref \<Rightarrow> EventLoop \<Rightarrow> EventLoop" where
  "timer_heap_fixup tim l =
     l\<lparr>m_timer_heap := heap_fixup (timers l) tim (m_timer_heap l),
       trace := trace l @ [HeapFixup tim]\<rparr>"

section \<open>Timer objects (EventLoopTimer)\<close>

definition set_m_time :: "timer_ref \<Rightarrow> EventLoopTime \<Rightarrow> EventLoop \<Rightarrow> EventLoop" where
  "set_m_time tim t l = l\<lparr>timers := (timers l)(tim := (timers l tim)\<lparr>m_time := t\<rparr>)\<rparr>"

definition set_m_state :: "timer_ref \<Rightarrow> TimerState \<Rightarrow> EventLoop \<Rightarrow> EventLoop" where
  "set_m_state tim s l = l\<lparr>timers := (timers l)(tim := (timers l tim)\<lparr>m_state := s\<rparr>)\<rparr>"

definition get_m_state :: "EventLoop \<Rightarrow> timer_ref \<Rightarrow> TimerState" where
  "get_m_state l tim = m_state (timers l tim)"

text \<open>The constructor: \<open>m_time(EventLoopTime()), m_state(TimerState::Idle)\<close>.\<close>

definition EventLoopTimer_new :: EventLoopTimer where
  "EventLoopTimer_new = \<lparr>m_time = EventLoopTime_default, m_state = Idle\<rparr>"

definition newTimer :: "timer_ref \<Rightarrow> EventLoop \<Rightarrow> EventLoop" where
  "newTimer tim l = l\<lparr>timers := (timers l)(tim := EventLoopTimer_new)\<rparr>"

text \<open>The destructor unlinks the timer; the object's fields are dead afterwards.\<close>

definition deleteTimer :: "timer_ref \<Rightarrow> EventLoop \<Rightarrow> EventLoop" where
  "deleteTimer tim l =
     (if get_m_state l tim \<noteq> Idle then timer_heap_remove tim l else l)"

definition isSet :: "EventLoop \<Rightarrow> timer_ref \<Rightarrow> bool" where
  "isSet l tim = (get_m_state l tim \<notin> {Idle, TempUnset})"

definition getSetTime :: "EventLoop \<Rightarrow> timer_ref \<Rightarrow> EventLoopTime" where
  "getSetTime l tim = m_time (timers l tim)"

definition unset :: "timer_ref \<Rightarrow> EventLoop \<Rightarrow> EventLoop" where
  "unset tim l =
     (if get_m_state l tim \<in> {TempUnset, TempSet} then set_m_state tim TempUnset l
      else if get_m_state l tim \<noteq> Idle
           then set_m_state tim Idle (timer_heap_remove tim l)
      else l)"

definition setAt :: "timer_ref \<Rightarrow> EventLoopTime \<Rightarrow> EventLoop \<Rightarrow> EventLoop" where
  "setAt tim t l =
     (let l1 = set_m_time tim t l
      in if get_m_state l1 tim \<in> {TempUnset, TempSet} then set_m_state tim TempSet l1
         else let old_state = get_m_state l1 tim;
                  l2 = set_m_state tim Pending l1
              in if old_state = Idle then timer_heap_insert tim l2
                 else timer_heap_fixup tim l2)"

definition getEventTime :: "EventLoop \<Rightarrow> EventLoopTime" where
  "getEventTime l = m_event_time l"

definition setAfter :: "timer_ref \<Rightarrow> EventLoopDuration \<Rightarrow> EventLoop \<Rightarrow> EventLoop" where
  "setAfter tim d l = setAt tim (time_plus (getEventTime l) d) l"


section \<open>Stopping, async signals and what handlers can do\<close>

definition stop :: "EventLoop \<Rightarrow> EventLoop" where
  "stop l = l\<lparr>m_stop := True\<rparr>"

text \<open>
  Modelled from the spec: the circular list (\<open>LinkedList.h\<close>) is not among the sources.
  The spec (sections 3 and 4.G) describes two circular doubly-linked lists with a head
  each, "lonely" meaning empty, and a "removed" marker on every node that says that the
  node is on neither list. The model keeps the nodes of each list in order, first node
  first, and the marker of every node beside them. Unlinking a node takes it off the
  list it is on; linking before the head of the pending list puts it at that list's tail
  and clears the marker.
\<close>

definition isLonely :: "asig_ref list \<Rightarrow> bool" where
  "isLonely xs = (xs = [])"

definition isRemoved :: "EventLoop \<Rightarrow> asig_ref \<Rightarrow> bool" where
  "isRemoved l n = asig_removed l n"

definition markRemoved :: "asig_ref \<Rightarrow> EventLoop \<Rightarrow> EventLoop" where
  "markRemoved n l = l\<lparr>asig_removed := (asig_removed l)(n := True)\<rparr>"

definition asig_list_remove :: "asig_ref \<Rightarrow> EventLoop \<Rightarrow> EventLoop" where
  "asig_list_remove n l =
     l\<lparr>m_pending_async_list := removeAll n (m_pending_async_list l),
       m_dispatch_async_list := removeAll n (m_dispatch_async_list l)\<rparr>"

definition initBefore_pending :: "asig_ref \<Rightarrow> EventLoop \<Rightarrow> EventLoop" where
  "initBefore_pending n l =
     l\<lparr>m_pending_async_list := m_pending_async_list l @ [n],
       asig_removed := (asig_removed l)(n := False)\<rparr>"

definition signalToCheckAsyncSignals :: "EventLoop \<Rightarrow> EventLoop" where
  "signalToCheckAsyncSignals l = l\<lparr>trace := trace l @ [Wakeup]\<rparr>"

definition signal :: "asig_ref \<Rightarrow> EventLoop \<Rightarrow> EventLoop" where
  "signal n l =
     (if isRemoved l n
      then let inserted_first = isLonely (m_pending_async_list l);
               l1 = initBefore_pending n l
           in if inserted_first then signalToCheckAsyncSignals l1 else l1
      else l)"

definition reset :: "asig_ref \<Rightarrow> EventLoop \<Rightarrow> EventLoop" where
  "reset n l = (if \<not> isRemoved l n then markRemoved n (asig_list_remove n l) else l)"

text \<open>
  A handler is user code. What it can do to the loop is call the public operations of the
  timers and async signals it can reach and \<open>EventLoop::stop\<close>; the model takes a handler
  as the list of the calls it makes, chosen from the state of the loop when the handler
  starts. Creating a timer runs the constructor, deleting one the destructor; the
  destructor of an async signal is \<open>reset\<close>. File-descriptor watchers do not touch the
  timers or the signal lists and are left out. A handler that calls \<open>run\<close> again from
  inside the loop is not modelled.
\<close>

fun perform :: "action \<Rightarrow> EventLoop \<Rightarrow> EventLoop" where
  "perform (SetAt tim t) l = setAt tim t l"
| "perform (SetAfter tim d) l = setAfter tim d l"
| "perform (Unset tim) l = unset tim l"
| "perform (NewTimer tim) l = newTimer tim l"
| "perform (DeleteTimer tim) l = deleteTimer tim l"
| "perform Stop l = stop l"
| "perform (Signal n) l = signal n l"
| "perform (ResetSignal n) l = reset n l"

definition call :: "action \<Rightarrow> EventLoop \<Rightarrow> EventLoop" where
  "call a l = perform a (l\<lparr>trace := trace l @ [Call a]\<rparr>)"

definition run_handler :: "action list \<Rightarrow> EventLoop \<Rightarrow> EventLoop" where
  "run_handler acts l = fold call acts l"

text \<open>
  The environment of the loop: the handlers of the timers and async signals, the clock,
  what the operating system reports to the provider, and the signals that other threads
  raise while the loop is blocked. Each is a function of the loop state, trace included.
\<close>

datatype provider_event = FdReady "action list" | AsyncWakeup

record environment =
  timer_handler :: "timer_ref \<Rightarrow> EventLoop \<Rightarrow> action list"
  asig_handler :: "asig_ref \<Rightarrow> EventLoop \<Rightarrow> action list"
  clock_now :: "EventLoop \<Rightarrow> EventLoopTime"
  os_events :: "EventLoop \<Rightarrow> provider_event list"
  signalled_while_waiting :: "EventLoop \<Rightarrow> asig_ref list"

definition handleTimerExpired :: "environment \<Rightarrow> timer_ref \<Rightarrow> EventLoop \<Rightarrow> EventLoop" where
  "handleTimerExpired env tim l =
     (let l1 = l\<lparr>trace := trace l @ [TimerExpired tim]\<rparr>
      in run_handler (timer_handler env tim l1) l1)"

definition m_handler :: "environment \<Rightarrow> asig_ref \<Rightarrow> EventLoop \<Rightarrow> EventLoop" where
  "m_handler env n l =
     (let l1 = l\<lparr>trace := trace l @ [AsyncHandler n]\<rparr>
      in run_handler (asig_handler env n l1) l1)"

section \<open>Dispatching timers\<close>

text \<open>The number of heap nodes in state \<open>Dispatch\<close> bounds the passes of \<open>dispatch_timers\<close>.\<close>

definition dispatch_count :: "EventLoop \<Rightarrow> nat" where
  "dispatch_count l = length (filter (\<lambda>x. get_m_state l x = Dispatch) (m_timer_heap l))"

lemma filter_heap_insert_length:
  "length (filter P (heap_insert ts x h)) = length (filter P h) + (if P x then 1 else 0)"
  by (induction h) auto

lemma filter_removeAll_length: "length (filter P (removeAll x h)) \<le> length (filter P h)"
  by (induction h) auto

lemma filter_mono_length:
  "(\<And>y. y \<in> set h \<Longrightarrow> P y \<Longrightarrow> Q y) \<Longrightarrow> length (filter P h) \<le> length (filter Q h)"
  by (induction h) auto

lemma filter_removeAll_length_eq:
  "\<not> P x \<Longrightarrow> length (filter P (removeAll x h)) = length (filter P h)"
  by (induction h) auto

lemma filter_heap_fixup_length:
  "\<not> P x \<Longrightarrow> length (filter P (heap_fixup ts x h)) = length (filter P h)"
  by (simp add: heap_fixup_def filter_heap_insert_length filter_removeAll_length_eq)

lemma dispatch_count_setAt: "dispatch_count (setAt tim t l) \<le> dispatch_count l"
  apply (simp add: dispatch_count_def setAt_def Let_def get_m_state_def set_m_time_def
      set_m_state_def timer_heap_insert_def timer_heap_fixup_def filter_heap_insert_length
      filter_heap_fixup_length)
  by (auto intro!: filter_mono_length)


lemma dispatch_count_set_m_state:
  "s \<noteq> Dispatch \<Longrightarrow> dispatch_count (set_m_state tim s l) \<le> dispatch_count l"
  by (auto simp: dispatch_count_def set_m_state_def get_m_state_def intro!: filter_mono_length)

lemma dispatch_count_timer_heap_remove:
  "dispatch_count (timer_heap_remove tim l) \<le> dispatch_count l"
  by (simp add: dispatch_count_def timer_heap_remove_def heap_remove_def get_m_state_def
      filter_removeAll_length)

lemma dispatch_count_unset: "dispatch_count (unset tim l) \<le> dispatch_count l"
proof -
  have "dispatch_count (set_m_state tim Idle (timer_heap_remove tim l))
          \<le> dispatch_count (timer_heap_remove tim l)"
    by (rule dispatch_count_set_m_state) simp
  also have "\<dots> \<le> dispatch_count l" by (rule dispatch_count_timer_heap_remove)
  finally show ?thesis
    by (simp add: unset_def dispatch_count_set_m_state)
qed

lemma dispatch_count_call: "dispatch_count (call a l) \<le> dispatch_count l"
proof (cases a)
  case (SetAt tim t)
  have "dispatch_count (setAt tim t (l\<lparr>trace := trace l @ [Call a]\<rparr>))
          \<le> dispatch_count (l\<lparr>trace := trace l @ [Call a]\<rparr>)"
    by (rule dispatch_count_setAt)
  then show ?thesis using SetAt by (simp add: call_def dispatch_count_def get_m_state_def)
next
  case (SetAfter tim d)
  have "dispatch_count (setAfter tim d (l\<lparr>trace := trace l @ [Call a]\<rparr>))
          \<le> dispatch_count (l\<lparr>trace := trace l @ [Call a]\<rparr>)"
    unfolding setAfter_def by (rule dispatch_count_setAt)
  then show ?thesis using SetAfter by (simp add: call_def dispatch_count_def get_m_state_def)
next
  case (Unset tim)
  have "dispatch_count (unset tim (l\<lparr>trace := trace l @ [Call a]\<rparr>))
          \<le> dispatch_count (l\<lparr>trace := trace l @ [Call a]\<rparr>)"
    by (rule dispatch_count_unset)
  then show ?thesis using Unset by (simp add: call_def dispatch_count_def get_m_state_def)
next
  case (NewTimer tim)
  then show ?thesis
    by (auto simp: call_def dispatch_count_def get_m_state_def newTimer_def EventLoopTimer_new_def
        intro!: filter_mono_length)
next
  case (DeleteTimer tim)
  then show ?thesis
    by (auto simp: call_def dispatch_count_def get_m_state_def deleteTimer_def
        timer_heap_remove_def heap_remove_def filter_removeAll_length)
next
  case Stop
  then show ?thesis by (simp add: call_def dispatch_count_def get_m_state_def stop_def)
next
  case (Signal n)
  then show ?thesis
    by (simp add: call_def dispatch_count_def get_m_state_def signal_def Let_def
        initBefore_pending_def signalToCheckAsyncSignals_def)
next
  case (ResetSignal n)
  then show ?thesis
    by (simp add: call_def dispatch_count_def get_m_state_def reset_def markRemoved_def
        asig_list_remove_def)
qed

lemma dispatch_count_run_handler: "dispatch_count (run_handler acts l) \<le> dispatch_count l"
  unfolding run_handler_def
proof (induction acts arbitrary: l)
  case Nil
  show ?case by simp
next
  case (Cons a acts)
  have "dispatch_count (fold call acts (call a l)) \<le> dispatch_count (call a l)"
    by (rule Cons.IH)
  also have "\<dots> \<le> dispatch_count l" by (rule dispatch_count_call)
  finally show ?case by simp
qed

lemma dispatch_count_root:
  assumes "heap_first (m_timer_heap l) = Some tim" and "get_m_state l tim = Dispatch"
  shows "dispatch_count (timer_heap_fixup tim (set_m_state tim TempUnset l)) < dispatch_count l"
proof -
  let ?P = "\<lambda>x. x \<noteq> tim \<and> get_m_state l x = Dispatch"
  from assms(1) obtain h where h: "m_timer_heap l = tim # h"
    by (auto simp: heap_first_def split: list.splits)
  have "dispatch_count (timer_heap_fixup tim (set_m_state tim TempUnset l))
          = length (filter ?P (heap_fixup (timers (set_m_state tim TempUnset l)) tim (m_timer_heap l)))"
    by (auto simp: dispatch_count_def timer_heap_fixup_def set_m_state_def get_m_state_def
        intro!: arg_cong[where f=length] filter_cong)
  also have "\<dots> = length (filter ?P (m_timer_heap l))"
    by (rule filter_heap_fixup_length) simp
  also have "\<dots> < dispatch_count l"
  proof -
    have "length (filter ?P h) \<le> length (filter (\<lambda>x. get_m_state l x = Dispatch) h)"
      by (rule filter_mono_length) simp
    then show ?thesis using assms(2) by (simp add: h dispatch_count_def)
  qed
  finally show ?thesis .
qed

lemma dispatch_count_handleTimerExpired:
  "dispatch_count (handleTimerExpired env tim l) \<le> dispatch_count l"
proof -
  have "dispatch_count (handleTimerExpired env tim l)
          \<le> dispatch_count (l\<lparr>trace := trace l @ [TimerExpired tim]\<rparr>)"
    unfolding handleTimerExpired_def Let_def by (rule dispatch_count_run_handler)
  then show ?thesis by (simp add: dispatch_count_def get_m_state_def)
qed

function dispatch_timers :: "environment \<Rightarrow> EventLoop \<Rightarrow> error + bool \<times> EventLoop" where
  "dispatch_timers env l =
     (case heap_first (m_timer_heap l) of
        None \<Rightarrow> Inr (True, l)
      | Some tim \<Rightarrow>
          if get_m_state l tim = Idle then Inl AssertionFailed
          else if get_m_state l tim \<noteq> Dispatch then Inr (True, l)
          else let l1 = timer_heap_fixup tim (set_m_state tim TempUnset l);
                   l2 = handleTimerExpired env tim l1
               in if m_stop l2 then Inr (False, l2) else dispatch_timers env l2)"
  by pat_completeness auto
termination
proof (relation "measure (\<lambda>(env, l). dispatch_count l)")
  show "wf (measure (\<lambda>(env, l). dispatch_count l))" by simp
next
  fix env l tim l1 l2
  assume "heap_first (m_timer_heap l) = Some tim" "\<not> get_m_state l tim \<noteq> Dispatch"
    and l1: "l1 = timer_heap_fixup tim (set_m_state tim TempUnset l)"
    and l2: "l2 = handleTimerExpired env tim l1"
  then have "dispatch_count l1 < dispatch_count l"
    by (simp add: dispatch_count_root)
  moreover have "dispatch_count l2 \<le> dispatch_count l1"
    unfolding l2 by (rule dispatch_count_handleTimerExpired)
  ultimately show "((env, l2), (env, l)) \<in> measure (\<lambda>(env, l). dispatch_count l)"
    by simp
qed

declare dispatch_timers.simps [simp del]


section \<open>Preparing timers\<close>

text \<open>
  Modelled from the spec: \<open>findAllLesserOrEqual\<close> belongs to the heap library. The spec
  (section 4.B) has it visit every node with deadline at most the key. The heap compares
  the key with a node through \<open>compareKeyEntry\<close>. In the ordered list the search walks
  from the first node and ends at the first node above the key, as the search in the heap
  does not descend below such a node; the nodes found are then visited.
  \<open>assertValidHeap\<close> checks the heap order; in the list it is sortedness.
\<close>

fun findAllLesserOrEqual ::
  "EventLoopTime \<Rightarrow> (timer_ref \<Rightarrow> EventLoopTimer) \<Rightarrow> timer_ref list \<Rightarrow> error + timer_ref list" where
  "findAllLesserOrEqual key ts [] = Inr []"
| "findAllLesserOrEqual key ts (x # xs) =
     (case compareKeyEntry key (ts x) of
        Inl e \<Rightarrow> Inl e
      | Inr c \<Rightarrow>
          if c < 0 then Inr []
          else (case findAllLesserOrEqual key ts xs of
                  Inl e \<Rightarrow> Inl e
                | Inr found \<Rightarrow> Inr (x # found)))"

definition heap_valid :: "(timer_ref \<Rightarrow> EventLoopTimer) \<Rightarrow> timer_ref list \<Rightarrow> bool" where
  "heap_valid ts h = sorted_wrt (\<lambda>x y. compareEntries (ts x) (ts y) \<le> 0) h"

fun visit_timers :: "timer_ref list \<Rightarrow> EventLoop \<Rightarrow> error + EventLoop" where
  "visit_timers [] l = Inr l"
| "visit_timers (tim # tims) l =
     (if get_m_state l tim \<noteq> Pending then Inl AssertionFailed
      else visit_timers tims (set_m_state tim Dispatch l))"

definition prepare_timers_for_dispatch :: "EventLoopTime \<Rightarrow> EventLoop \<Rightarrow> error + EventLoop" where
  "prepare_timers_for_dispatch now l =
     (case findAllLesserOrEqual now (timers l) (m_timer_heap l) of
        Inl e \<Rightarrow> Inl e
      | Inr visited \<Rightarrow>
          let changed = (visited \<noteq> [])
          in case visit_timers visited l of
               Inl e \<Rightarrow> Inl e
             | Inr l1 \<Rightarrow>
                 if changed \<and> \<not> heap_valid (timers l1) (m_timer_heap l1)
                 then Inl AssertionFailed
                 else Inr l1)"

record EventLoopWaitTimeoutInfo =
  timeout_time :: EventLoopTime
  timeout_time_changed :: bool

definition wait_measure :: "EventLoop \<Rightarrow> nat" where
  "wait_measure l =
     length (m_timer_heap l) + length (filter (\<lambda>x. get_m_state l x = TempSet) (m_timer_heap l))"

lemma filter_without_length_less:
  "x \<in> set h \<Longrightarrow> P x \<Longrightarrow> length (filter (\<lambda>y. y \<noteq> x \<and> P y) h) < length (filter P h)"
proof (induction h)
  case Nil
  then show ?case by simp
next
  case (Cons a h)
  have le: "length (filter (\<lambda>y. y \<noteq> x \<and> P y) h) \<le> length (filter P h)"
    by (rule filter_mono_length) simp
  show ?case
  proof (cases "a = x")
    case True
    then show ?thesis using Cons.prems le by simp
  next
    case False
    then show ?thesis using Cons by auto
  qed
qed

lemma length_heap_insert: "length (heap_insert ts x h) = Suc (length h)"
  by (induction h) auto

lemma length_heap_fixup: "length (heap_fixup ts x h) \<le> length h"
  using length_removeAll_less[of x h]
  by (auto simp: heap_fixup_def length_heap_insert)

lemma wait_measure_TempUnset:
  assumes "heap_first (m_timer_heap l) = Some tim"
  shows "wait_measure (set_m_state tim Idle (timer_heap_remove tim l)) < wait_measure l"
proof -
  from assms have mem: "tim \<in> set (m_timer_heap l)"
    by (auto simp: heap_first_def split: list.splits)
  have "length (filter (\<lambda>x. get_m_state (set_m_state tim Idle (timer_heap_remove tim l)) x = TempSet)
           (removeAll tim (m_timer_heap l)))
        \<le> length (filter (\<lambda>x. get_m_state l x = TempSet) (removeAll tim (m_timer_heap l)))"
    by (rule filter_mono_length)
      (auto simp: get_m_state_def set_m_state_def timer_heap_remove_def)
  also have "\<dots> \<le> length (filter (\<lambda>x. get_m_state l x = TempSet) (m_timer_heap l))"
    by (rule filter_removeAll_length)
  finally show ?thesis
    using length_removeAll_less[OF mem]
    by (simp add: wait_measure_def set_m_state_def timer_heap_remove_def heap_remove_def)
qed

lemma wait_measure_TempSet:
  assumes "heap_first (m_timer_heap l) = Some tim" and "get_m_state l tim = TempSet"
  shows "wait_measure (timer_heap_fixup tim (set_m_state tim Pending l)) < wait_measure l"
proof -
  let ?l' = "timer_heap_fixup tim (set_m_state tim Pending l)"
  let ?P = "\<lambda>x. x \<noteq> tim \<and> get_m_state l x = TempSet"
  from assms(1) have mem: "tim \<in> set (m_timer_heap l)"
    by (auto simp: heap_first_def split: list.splits)
  have "length (filter (\<lambda>x. get_m_state ?l' x = TempSet) (m_timer_heap ?l'))
          = length (filter ?P (heap_fixup (timers (set_m_state tim Pending l)) tim (m_timer_heap l)))"
    by (auto simp: timer_heap_fixup_def set_m_state_def get_m_state_def
        intro!: arg_cong[where f=length] filter_cong)
  also have "\<dots> = length (filter ?P (m_timer_heap l))"
    by (rule filter_heap_fixup_length) simp
  also have "\<dots> < length (filter (\<lambda>x. get_m_state l x = TempSet) (m_timer_heap l))"
    using mem assms(2) by (rule filter_without_length_less)
  finally have "length (filter (\<lambda>x. get_m_state ?l' x = TempSet) (m_timer_heap ?l'))
      < length (filter (\<lambda>x. get_m_state l x = TempSet) (m_timer_heap l))" .
  moreover have "length (m_timer_heap ?l') \<le> length (m_timer_heap l)"
    by (simp add: timer_heap_fixup_def set_m_state_def length_heap_fixup)
  ultimately show ?thesis by (simp add: wait_measure_def)
qed

function prepare_timers_for_wait_loop :: "EventLoop \<Rightarrow> error + EventLoopTime \<times> EventLoop" where
  "prepare_timers_for_wait_loop l =
     (case heap_first (m_timer_heap l) of
        None \<Rightarrow> Inr (EventLoopTime_max, l)
      | Some tim \<Rightarrow>
          if get_m_state l tim \<notin> {TempUnset, TempSet, Pending} then Inl AssertionFailed
          else if get_m_state l tim = TempUnset
               then prepare_timers_for_wait_loop (set_m_state tim Idle (timer_heap_remove tim l))
          else if get_m_state l tim = TempSet
               then prepare_timers_for_wait_loop (timer_heap_fixup tim (set_m_state tim Pending l))
          else Inr (m_time (timers l tim), l))"
  by pat_completeness auto
termination
  by (relation "measure wait_measure")
    (simp_all add: wait_measure_TempUnset wait_measure_TempSet)

declare prepare_timers_for_wait_loop.simps [simp del]

definition prepare_timers_for_wait :: "EventLoop \<Rightarrow> error + EventLoopWaitTimeoutInfo \<times> EventLoop" where
  "prepare_timers_for_wait l =
     (case prepare_timers_for_wait_loop l of
        Inl e \<Rightarrow> Inl e
      | Inr (first_time, l1) \<Rightarrow>
          let time_changed = (first_time \<noteq> m_last_wait_time l1);
              l2 = l1\<lparr>m_last_wait_time := first_time\<rparr>
          in Inr (\<lparr>timeout_time = first_time, timeout_time_changed = time_changed\<rparr>, l2))"

section \<open>Dispatching async signals\<close>

lemma dispatch_list_call:
  "length (m_dispatch_async_list (call a l)) \<le> length (m_dispatch_async_list l)"
proof -
  have "length (removeAll n (m_dispatch_async_list l)) \<le> length (m_dispatch_async_list l)" for n
    by (rule length_removeAll_less_eq)
  then show ?thesis
    by (cases a)
      (simp_all add: call_def setAt_def setAfter_def unset_def newTimer_def deleteTimer_def
        stop_def signal_def reset_def Let_def set_m_time_def set_m_state_def timer_heap_insert_def
        timer_heap_fixup_def timer_heap_remove_def initBefore_pending_def
        signalToCheckAsyncSignals_def markRemoved_def asig_list_remove_def)
qed

lemma dispatch_list_run_handler:
  "length (m_dispatch_async_list (run_handler acts l)) \<le> length (m_dispatch_async_list l)"
  unfolding run_handler_def
proof (induction acts arbitrary: l)
  case Nil
  show ?case by simp
next
  case (Cons a acts)
  have "length (m_dispatch_async_list (fold call acts (call a l)))
          \<le> length (m_dispatch_async_list (call a l))"
    by (rule Cons.IH)
  also have "\<dots> \<le> length (m_dispatch_async_list l)" by (rule dispatch_list_call)
  finally show ?case by simp
qed

text \<open>
  The loop of \<open>dispatch_async_signals\<close>. The mutex is taken and released around the list
  operations only and does not change what one thread computes; it is not modelled. All
  signal objects belong to the one loop of the model, so the assertion that the node's
  loop is this loop holds.
\<close>

function dispatch_async_loop :: "environment \<Rightarrow> EventLoop \<Rightarrow> error + bool \<times> EventLoop" where
  "dispatch_async_loop env l =
     (case m_dispatch_async_list l of
        [] \<Rightarrow> Inr (True, l)
      | node # _ \<Rightarrow>
          if isRemoved l node then Inl AssertionFailed
          else let l1 = markRemoved node (asig_list_remove node l);
                   l2 = m_handler env node l1
               in if m_stop l2 then Inr (False, l2) else dispatch_async_loop env l2)"
  by pat_completeness auto
termination
proof (relation "measure (\<lambda>(env, l). length (m_dispatch_async_list l))")
  show "wf (measure (\<lambda>(env, l). length (m_dispatch_async_list l)))" by simp
next
  fix env l node rest l1 l2
  assume d: "m_dispatch_async_list l = node # rest"
    and l1: "l1 = markRemoved node (asig_list_remove node l)"
    and l2: "l2 = m_handler env node l1"
  have "length (m_dispatch_async_list l2)
          \<le> length (m_dispatch_async_list (l1\<lparr>trace := trace l1 @ [AsyncHandler node]\<rparr>))"
    unfolding l2 m_handler_def Let_def by (rule dispatch_list_run_handler)
  also have "\<dots> = length (removeAll node (m_dispatch_async_list l))"
    by (simp add: l1 markRemoved_def asig_list_remove_def)
  also have "\<dots> < length (m_dispatch_async_list l)"
    by (rule length_removeAll_less) (simp add: d)
  finally show "((env, l2), (env, l)) \<in> measure (\<lambda>(env, l). length (m_dispatch_async_list l))"
    by simp
qed

declare dispatch_async_loop.simps [simp del]

definition dispatch_async_signals :: "environment \<Rightarrow> EventLoop \<Rightarrow> error + bool \<times> EventLoop" where
  "dispatch_async_signals env l =
     (if \<not> isLonely (m_dispatch_async_list l) then Inl AssertionFailed
      else if isLonely (m_pending_async_list l) then Inr (True, l)
      else dispatch_async_loop env
             (l\<lparr>m_dispatch_async_list := m_pending_async_list l, m_pending_async_list := []\<rparr>))"


section \<open>The provider and the main loop\<close>

text \<open>
  Modelled from the spec: the provider (\<open>EventProviderLinux.h\<close>) is not among the sources.
  The spec (section 4.D) has \<open>dispatch_events\<close> invoke the handlers of the reported fd
  readiness and drain the async signals through \<open>dispatch_async_signals\<close>, returning false
  iff stop was observed, and \<open>wait\<close> block until the deadline, an fd event or a wakeup.
  Signals raised by other threads are taken to arrive while the loop is blocked.
\<close>

fun dispatch_os_events :: "environment \<Rightarrow> provider_event list \<Rightarrow> EventLoop \<Rightarrow> error + bool \<times> EventLoop" where
  "dispatch_os_events env [] l = Inr (True, l)"
| "dispatch_os_events env (FdReady acts # evs) l =
     (let l1 = run_handler acts l
      in if m_stop l1 then Inr (False, l1) else dispatch_os_events env evs l1)"
| "dispatch_os_events env (AsyncWakeup # evs) l =
     (case dispatch_async_signals env l of
        Inl e \<Rightarrow> Inl e
      | Inr (ok, l1) \<Rightarrow> if \<not> ok then Inr (False, l1) else dispatch_os_events env evs l1)"

definition dispatchEvents :: "environment \<Rightarrow> EventLoop \<Rightarrow> error + bool \<times> EventLoop" where
  "dispatchEvents env l =
     (let l1 = l\<lparr>trace := trace l @ [DispatchEvents]\<rparr>
      in dispatch_os_events env (os_events env l1) l1)"

definition waitForEvents :: "environment \<Rightarrow> EventLoopWaitTimeoutInfo \<Rightarrow> EventLoop \<Rightarrow> EventLoop" where
  "waitForEvents env timeout_info l =
     (let l1 = l\<lparr>trace := trace l @
                 [WaitForEvents (timeout_time timeout_info) (timeout_time_changed timeout_info)]\<rparr>
      in fold signal (signalled_while_waiting env l1) l1)"

definition getTime :: "environment \<Rightarrow> EventLoop \<Rightarrow> EventLoopTime \<times> EventLoop" where
  "getTime env l = (clock_now env l, l\<lparr>trace := trace l @ [GetTime (clock_now env l)]\<rparr>)"

text \<open>
  \<open>run\<close> loops until stop is observed, which may be never. The model counts iterations:
  \<open>None\<close> says that the loop is still running after the given number of them.
\<close>

fun run_loop :: "environment \<Rightarrow> nat \<Rightarrow> EventLoop \<Rightarrow> (error + EventLoop) option" where
  "run_loop env 0 l = None"
| "run_loop env (Suc n) l =
     (let (now, l0) = getTime env l;
          l1 = l0\<lparr>m_event_time := now\<rparr>
      in case prepare_timers_for_dispatch (m_event_time l1) l1 of
           Inl e \<Rightarrow> Some (Inl e)
         | Inr l2 \<Rightarrow>
        (case dispatch_timers env l2 of
           Inl e \<Rightarrow> Some (Inl e)
         | Inr (ok, l3) \<Rightarrow>
        if \<not> ok then Some (Inr l3) else
        (case dispatchEvents env l3 of
           Inl e \<Rightarrow> Some (Inl e)
         | Inr (ok', l4) \<Rightarrow>
        if \<not> ok' then Some (Inr l4) else
        (case prepare_timers_for_wait l4 of
           Inl e \<Rightarrow> Some (Inl e)
         | Inr (timeout_info, l5) \<Rightarrow>
        run_loop env n (waitForEvents env timeout_info l5)))))"

definition run :: "environment \<Rightarrow> nat \<Rightarrow> EventLoop \<Rightarrow> (error + EventLoop) option" where
  "run env fuel l = (if m_stop l then Some (Inr l) else run_loop env fuel l)"

definition EventLoop_new :: "EventLoopTime \<Rightarrow> EventLoop" where
  "EventLoop_new now =
     \<lparr>m_timer_heap = [], m_stop = False, m_event_time = now,
      m_last_wait_time = EventLoopTime_max,
      m_pending_async_list = [], m_dispatch_async_list = [],
      timers = (\<lambda>_. EventLoopTimer_new), asig_removed = (\<lambda>_. True), trace = []\<rparr>"

section \<open>Reading the trace of a dispatch pass\<close>

text \<open>
  An event re-arms a timer when it is a handler's call of \<open>setAt\<close> or \<open>setAfter\<close> on that
  timer. A timer is fired after being set in a trace when such a call is followed, later
  in the trace, by the invocation of the timer's handler. The invariant of a dispatch
  pass: in the events since the pass began no timer is fired after being set, a timer
  set since then is not in \<open>Dispatch\<close>, and a timer that is in \<open>Dispatch\<close> or has fired
  was in \<open>Dispatch\<close> when the pass began.
\<close>

fun rearms :: "timer_ref \<Rightarrow> event \<Rightarrow> bool" where
  "rearms tim (Call (SetAt x t)) = (x = tim)"
| "rearms tim (Call (SetAfter x d)) = (x = tim)"
| "rearms tim _ = False"

fun fired_after_set :: "timer_ref \<Rightarrow> event list \<Rightarrow> bool" where
  "fired_after_set tim [] = False"
| "fired_after_set tim (e # es) =
     ((rearms tim e \<and> TimerExpired tim \<in> set es) \<or> fired_after_set tim es)"

definition pass_inv :: "event list \<Rightarrow> EventLoop \<Rightarrow> EventLoop \<Rightarrow> bool" where
  "pass_inv t0 l0 l =
     (\<exists>T. trace l = t0 @ T \<and>
        (\<forall>tim. \<not> fired_after_set tim T \<and>
           ((\<exists>e\<in>set T. rearms tim e) \<longrightarrow> get_m_state l tim \<noteq> Dispatch) \<and>
           (get_m_state l tim = Dispatch \<longrightarrow> get_m_state l0 tim = Dispatch) \<and>
           (TimerExpired tim \<in> set T \<longrightarrow> get_m_state l0 tim = Dispatch)))"

text \<open>
  The events an operation called from a handler adds after the call itself are calls into
  the heap and the provider's wakeup; the events a handler adds are its calls and these.
\<close>

fun internal_event :: "event \<Rightarrow> bool" where
  "internal_event (HeapInsert x) = True"
| "internal_event (HeapRemove x) = True"
| "internal_event (HeapFixup x) = True"
| "internal_event Wakeup = True"
| "internal_event _ = False"

definition handler_event :: "event \<Rightarrow> bool" where
  "handler_event e = ((\<exists>a. e = Call a) \<or> internal_event e)"

section \<open>Well-formed signal lists\<close>

text \<open>
  A node is linked at most once, and its "removed" marker is set exactly when it is on
  neither list (invariant 3 of the spec). The constructor of an async signal marks it
  removed, and every operation keeps this.
\<close>

definition asig_wf :: "EventLoop \<Rightarrow> bool" where
  "asig_wf l =
     (distinct (m_dispatch_async_list l @ m_pending_async_list l) \<and>
      (\<forall>n. asig_removed l n =
         (n \<notin> set (m_dispatch_async_list l) \<and> n \<notin> set (m_pending_async_list l))))"

section \<open>Example states\<close>

text \<open>
  Two timers armed before the loop runs, and the state in which the handler of the first
  one finds the loop: \<open>dispatch_timers\<close> has put the timer into \<open>TempUnset\<close> and fixed
  up the heap.
\<close>

definition example_armed :: EventLoop where
  "example_armed = setAt 2 20 (setAt 0 5 (EventLoop_new 0))"

definition example_in_handler :: EventLoop where
  "example_in_handler = timer_heap_fixup 0 (set_m_state 0 TempUnset example_armed)"

definition example_rearmed :: EventLoop where
  "example_rearmed = setAt 0 30 example_in_handler"

text \<open>
  An environment whose first timer, when it fires, moves the other timer's deadline to
  the past and re-arms itself, and whose first async signal raises itself again; a second
  one whose first async signal stops the loop; and a loop with two signals raised.
\<close>

definition example_env :: environment where
  "example_env =
     \<lparr>timer_handler = (\<lambda>tim l. if tim = 0 then [SetAt 2 1, SetAt 0 3] else []),
      asig_handler = (\<lambda>n l. if n = 0 then [Signal 0] else []),
      clock_now = (\<lambda>l. 10),
      os_events = (\<lambda>l. [AsyncWakeup]),
      signalled_while_waiting = (\<lambda>l. [])\<rparr>"

definition example_stop_env :: environment where
  "example_stop_env = example_env\<lparr>asig_handler := (\<lambda>n l. if n = 0 then [Stop] else [])\<rparr>"

definition example_signalled :: EventLoop where
  "example_signalled = signal 2 (signal 0 (EventLoop_new 0))"

text \<open>Both example timers due: the state that \<open>prepare_timers_for_dispatch\<close> leaves at time 30.\<close>

definition example_due :: EventLoop where
  "example_due = set_m_state 2 Dispatch (set_m_state 0 Dispatch example_armed)"

text \<open>The two timers armed and the first async signal raised, before \<open>run\<close> is called.\<close>

definition example_start :: EventLoop where
  "example_start = signal 0 example_armed"

section \<open>Basic facts\<close>

lemma state_order_values:
  "state_order Idle = 0" "state_order Dispatch = 1" "state_order TempUnset = 2"
  "state_order TempSet = 2" "state_order Pending = 3"
  by (simp_all add: state_order_def TimerStateOrderMask_def TimerStateOrderBits_def)

lemmas timer_op_defs = setAt_def unset_def Let_def getSetTime_def get_m_state_def set_m_time_def
  set_m_state_def timer_heap_insert_def timer_heap_fixup_def timer_heap_remove_def

lemma example_armed_fields:
  "m_timer_heap example_armed = [0, 2]"
  "timers example_armed 0 = \<lparr>m_time = 5, m_state = Pending\<rparr>"
  "timers example_armed 2 = \<lparr>m_time = 20, m_state = Pending\<rparr>"
  "trace example_armed = [HeapInsert 0, HeapInsert 2]"
  by (simp_all add: example_armed_def EventLoop_new_def EventLoopTimer_new_def timer_op_defs
      compareEntries_def state_order_values)

lemma example_in_handler_fields:
  "m_timer_heap example_in_handler = [0, 2]"
  "timers example_in_handler 0 = \<lparr>m_time = 5, m_state = TempUnset\<rparr>"
  "timers example_in_handler 2 = \<lparr>m_time = 20, m_state = Pending\<rparr>"
  "trace example_in_handler = [HeapInsert 0, HeapInsert 2, HeapFixup 0]"
  by (simp_all add: example_in_handler_def example_armed_fields timer_op_defs heap_fixup_def
      compareEntries_def state_order_values)

lemma example_last_wait_time:
  "m_last_wait_time example_armed = EventLoopTime_max"
  "m_last_wait_time example_in_handler = EventLoopTime_max"
  by (simp_all add: example_in_handler_def example_armed_def EventLoop_new_def timer_op_defs)

lemma example_rearmed_fields:
  "m_timer_heap example_rearmed = [0, 2]"
  "timers example_rearmed 0 = \<lparr>m_time = 30, m_state = TempSet\<rparr>"
  "timers example_rearmed 2 = \<lparr>m_time = 20, m_state = Pending\<rparr>"
  "m_last_wait_time example_rearmed = EventLoopTime_max"
  by (simp_all add: example_rearmed_def example_in_handler_fields example_last_wait_time
      timer_op_defs)


lemma prepare_timers_for_wait_loop_result:
  "prepare_timers_for_wait_loop l = Inr (first_time, l') \<Longrightarrow>
     m_last_wait_time l' = m_last_wait_time l \<and>
     (case heap_first (m_timer_heap l') of
        None \<Rightarrow> first_time = EventLoopTime_max
      | Some tim \<Rightarrow> get_m_state l' tim = Pending \<and> first_time = m_time (timers l' tim))"
proof (induction l rule: prepare_timers_for_wait_loop.induct)
  case (1 l)
  show ?case
  proof (cases "heap_first (m_timer_heap l)")
    case None
    with "1.prems" show ?thesis
      by (simp add: prepare_timers_for_wait_loop.simps [of l])
  next
    case (Some tim)
    consider (tu) "get_m_state l tim = TempUnset" | (ts) "get_m_state l tim = TempSet"
      | (p) "get_m_state l tim = Pending" | (bad) "get_m_state l tim \<in> {Idle, Dispatch}"
      by (cases "get_m_state l tim") auto
    then show ?thesis
    proof cases
      case tu
      with Some "1.prems"
      have "prepare_timers_for_wait_loop (set_m_state tim Idle (timer_heap_remove tim l))
              = Inr (first_time, l')"
        by (simp add: prepare_timers_for_wait_loop.simps [of l])
      moreover have "\<not> get_m_state l tim \<notin> {TempUnset, TempSet, Pending}"
        using tu by simp
      ultimately show ?thesis
        using "1.IH"(1) [OF Some _ tu] by (simp add: set_m_state_def timer_heap_remove_def)
    next
      case ts
      with Some "1.prems"
      have "prepare_timers_for_wait_loop (timer_heap_fixup tim (set_m_state tim Pending l))
              = Inr (first_time, l')"
        by (simp add: prepare_timers_for_wait_loop.simps [of l])
      moreover have "\<not> get_m_state l tim \<notin> {TempUnset, TempSet, Pending}"
        and "get_m_state l tim \<noteq> TempUnset"
        using ts by simp_all
      ultimately show ?thesis
        using "1.IH"(2) [OF Some _ _ ts] by (simp add: set_m_state_def timer_heap_fixup_def)
    next
      case p
      with Some "1.prems" show ?thesis
        by (auto simp: prepare_timers_for_wait_loop.simps [of l])
    next
      case bad
      with Some "1.prems" show ?thesis
        by (auto simp: prepare_timers_for_wait_loop.simps [of l])
    qed
  qed
qed

section \<open>Timer operations\<close>

text \<open>
  Claim C1. \<open>setAt\<close> first stores the deadline. Then a timer in \<open>TempUnset\<close> or \<open>TempSet\<close>
  becomes \<open>TempSet\<close> and the heap is not called at all; an \<open>Idle\<close> timer becomes
  \<open>Pending\<close> and is inserted into the heap; a timer in \<open>Dispatch\<close> or \<open>Pending\<close>
  becomes \<open>Pending\<close> and \<open>fixup\<close> is called on it. The heap operation sees the timer
  with its new deadline and state.
\<close>

theorem setAt_transitions:
 "getSetTime (setAt tim t l) tim = t \<and>
  (get_m_state l tim \<in> {TempUnset, TempSet} \<longrightarrow>
     get_m_state (setAt tim t l) tim = TempSet \<and>
     m_timer_heap (setAt tim t l) = m_timer_heap l \<and>
     trace (setAt tim t l) = trace l) \<and>
  (get_m_state l tim = Idle \<longrightarrow>
     get_m_state (setAt tim t l) tim = Pending \<and>
     m_timer_heap (setAt tim t l) = heap_insert (timers (setAt tim t l)) tim (m_timer_heap l) \<and>
     trace (setAt tim t l) = trace l @ [HeapInsert tim]) \<and>
  (get_m_state l tim \<in> {Dispatch, Pending} \<longrightarrow>
     get_m_state (setAt tim t l) tim = Pending \<and>
     m_timer_heap (setAt tim t l) = heap_fixup (timers (setAt tim t l)) tim (m_timer_heap l) \<and>
     trace (setAt tim t l) = trace l @ [HeapFixup tim])"
  by (auto simp: timer_op_defs)

theorem setAt_transitions_witness:
  "(get_m_state (EventLoop_new 0) 0 = Idle \<and>
    get_m_state (setAt 0 5 (EventLoop_new 0)) 0 = Pending \<and>
    trace (setAt 0 5 (EventLoop_new 0)) = [HeapInsert 0]) \<and>
   (get_m_state example_armed 0 = Pending \<and>
    get_m_state (setAt 0 30 example_armed) 0 = Pending \<and>
    trace (setAt 0 30 example_armed) = [HeapInsert 0, HeapInsert 2, HeapFixup 0]) \<and>
   (get_m_state example_in_handler 0 = TempUnset \<and>
    get_m_state (setAt 0 30 example_in_handler) 0 = TempSet \<and>
    m_timer_heap (setAt 0 30 example_in_handler) = [0, 2] \<and>
    trace (setAt 0 30 example_in_handler) = [HeapInsert 0, HeapInsert 2, HeapFixup 0])"
proof -
  have a: "get_m_state (EventLoop_new 0) 0 = Idle"
    by (simp add: get_m_state_def EventLoop_new_def EventLoopTimer_new_def)
  have a': "trace (EventLoop_new 0) = []" by (simp add: EventLoop_new_def)
  have b: "get_m_state example_armed 0 = Pending"
    by (simp add: get_m_state_def example_armed_fields)
  have c: "get_m_state example_in_handler 0 = TempUnset"
    by (simp add: get_m_state_def example_in_handler_fields)
  show ?thesis
    using setAt_transitions [of 0 5 "EventLoop_new 0"] setAt_transitions [of 0 30 example_armed]
      setAt_transitions [of 0 30 example_in_handler]
    by (simp add: a a' b c example_armed_fields example_in_handler_fields)
qed

text \<open>
  Claim C4, as stated, fails: in the handler context \<open>setAt\<close> followed by \<open>unset\<close> leaves
  the timer in \<open>TempUnset\<close> and in the heap, not \<open>Idle\<close>.
\<close>

theorem setAt_unset_counterexample:
  "get_m_state (unset 0 (setAt 0 30 example_in_handler)) 0 = TempUnset \<and>
   0 \<in> set (m_timer_heap (unset 0 (setAt 0 30 example_in_handler)))"
  by (simp add: timer_op_defs example_in_handler_fields)

text \<open>
  Claim C4, amended. \<open>setAt\<close> followed by \<open>unset\<close> leaves the timer \<open>Idle\<close> and out of the
  heap when it was \<open>Idle\<close>, \<open>Dispatch\<close> or \<open>Pending\<close> before. When it was \<open>TempUnset\<close> or
  \<open>TempSet\<close>, the sequence leaves it in \<open>TempUnset\<close> with the heap as it was, and the
  timer reads as not set.
\<close>

theorem setAt_unset:
  "(get_m_state l tim \<in> {Idle, Dispatch, Pending} \<longrightarrow>
      get_m_state (unset tim (setAt tim t l)) tim = Idle \<and>
      tim \<notin> set (m_timer_heap (unset tim (setAt tim t l)))) \<and>
   (get_m_state l tim \<in> {TempUnset, TempSet} \<longrightarrow>
      get_m_state (unset tim (setAt tim t l)) tim = TempUnset \<and>
      m_timer_heap (unset tim (setAt tim t l)) = m_timer_heap l \<and>
      \<not> isSet (unset tim (setAt tim t l)) tim)"
  by (auto simp: timer_op_defs isSet_def heap_remove_def)

theorem setAt_unset_witness:
  "(get_m_state example_armed 0 = Pending \<and>
    get_m_state (unset 0 (setAt 0 30 example_armed)) 0 = Idle \<and>
    0 \<notin> set (m_timer_heap (unset 0 (setAt 0 30 example_armed)))) \<and>
   (get_m_state example_in_handler 0 = TempUnset \<and>
    get_m_state (unset 0 (setAt 0 30 example_in_handler)) 0 = TempUnset \<and>
    m_timer_heap (unset 0 (setAt 0 30 example_in_handler)) = [0, 2])"
proof -
  have b: "get_m_state example_armed 0 = Pending"
    by (simp add: get_m_state_def example_armed_fields)
  have c: "get_m_state example_in_handler 0 = TempUnset"
    by (simp add: get_m_state_def example_in_handler_fields)
  show ?thesis
    using setAt_unset [of example_armed 0 30] setAt_unset [of example_in_handler 0 30]
    by (simp add: b c example_in_handler_fields)
qed

text \<open>
  Claim C9. \<open>setAfter\<close> is \<open>setAt\<close> at the loop's event time plus the duration; the
  stored deadline is that sum, capped at the sentinel \<open>EventLoopTime_max\<close>.
\<close>

theorem setAfter_saturates:
  "setAfter tim d l = setAt tim (time_plus (getEventTime l) d) l \<and>
   getSetTime (setAfter tim d l) tim = min EventLoopTime_max (m_event_time l + d) \<and>
   getSetTime (setAfter tim d l) tim \<le> EventLoopTime_max"
  by (auto simp: setAfter_def time_plus_def getEventTime_def timer_op_defs)

text \<open>
  Claim C10. A freshly constructed timer reports the default-constructed time, which is
  not the sentinel, and is not set. \<open>unset\<close> keeps the stored deadline: after \<open>setAt\<close>
  and \<open>unset\<close> the timer still reports the deadline given to \<open>setAt\<close> although it is
  not set.
\<close>

theorem fresh_timer_getSetTime:
  "getSetTime (newTimer tim l) tim = EventLoopTime_default \<and>
   EventLoopTime_default \<noteq> EventLoopTime_max \<and>
   \<not> isSet (newTimer tim l) tim \<and>
   getSetTime (unset tim (setAt tim t l)) tim = t \<and>
   \<not> isSet (unset tim (setAt tim t l)) tim \<and>
   getSetTime (unset tim (setAt tim t (newTimer tim l))) tim = t \<and>
   get_m_state (unset tim (setAt tim t (newTimer tim l))) tim = Idle"
  by (auto simp: newTimer_def EventLoopTimer_new_def EventLoopTime_default_def
      EventLoopTime_max_def isSet_def timer_op_defs)

section \<open>The comparator\<close>

text \<open>
  Claim C5, as stated, fails: the order class of \<open>Dispatch\<close> is not 0.
\<close>

theorem compareEntries_order_counterexample:
  "\<not> (state_order Dispatch = 0 \<and> state_order TempUnset = 2 \<and> state_order TempSet = 2 \<and>
      state_order Pending = 3)"
  by (simp add: state_order_values)

text \<open>
  Claim C5, amended. The order classes are \<open>Dispatch\<close> = 1, \<open>TempUnset\<close> = \<open>TempSet\<close> = 2
  and \<open>Pending\<close> = 3; class 0 is that of \<open>Idle\<close>, which is never in the heap. Every
  class fits in two bits. The comparator orders by class first and deadline second and
  returns zero exactly when both are equal; \<open>Dispatch\<close> is below \<open>TempUnset\<close> and
  \<open>TempSet\<close>, which are below \<open>Pending\<close>.
\<close>

theorem compareEntries_order:
  "state_order Dispatch = 1 \<and> state_order TempUnset = 2 \<and>
   state_order TempSet = 2 \<and> state_order Pending = 3 \<and> state_order Idle = 0 \<and>
   state_order s < 4 \<and>
   (compareEntries a b = 0 \<longleftrightarrow>
      state_order (m_state a) = state_order (m_state b) \<and> m_time a = m_time b) \<and>
   (compareEntries a b < 0 \<longleftrightarrow>
      state_order (m_state a) < state_order (m_state b) \<or>
      (state_order (m_state a) = state_order (m_state b) \<and> m_time a < m_time b)) \<and>
   (compareEntries a b > 0 \<longleftrightarrow>
      state_order (m_state b) < state_order (m_state a) \<or>
      (state_order (m_state a) = state_order (m_state b) \<and> m_time b < m_time a)) \<and>
   state_order Dispatch < state_order TempUnset \<and>
   state_order TempSet < state_order Pending"
proof -
  have "state_order s < 4" by (cases s) (simp_all add: state_order_values)
  then show ?thesis
    by (auto simp: state_order_values compareEntries_def Let_def)
qed

section \<open>Finalizing timers for the wait\<close>

text \<open>
  Claim C3. \<open>prepare_timers_for_wait\<close> looks at the heap root again and again. A root in
  \<open>TempUnset\<close> is removed from the heap and set to \<open>Idle\<close>; a root in \<open>TempSet\<close> is set
  to \<open>Pending\<close> and fixed up; a \<open>Pending\<close> root ends the loop with its deadline as the
  first time; an empty heap ends it with \<open>EventLoopTime_max\<close>. A root in another state
  fails the assertion. When the function returns, the heap is empty and the time is the
  sentinel, or the root is \<open>Pending\<close> and the time is its deadline; the changed flag says
  whether that time differs from the last wait time, which is then updated.
\<close>

theorem prepare_timers_for_wait_root:
  "(heap_first (m_timer_heap l) = Some tim \<and> get_m_state l tim = TempUnset \<longrightarrow>
      prepare_timers_for_wait_loop l
        = prepare_timers_for_wait_loop (set_m_state tim Idle (timer_heap_remove tim l)) \<and>
      get_m_state (set_m_state tim Idle (timer_heap_remove tim l)) tim = Idle \<and>
      tim \<notin> set (m_timer_heap (set_m_state tim Idle (timer_heap_remove tim l)))) \<and>
   (heap_first (m_timer_heap l) = Some tim \<and> get_m_state l tim = TempSet \<longrightarrow>
      prepare_timers_for_wait_loop l
        = prepare_timers_for_wait_loop (timer_heap_fixup tim (set_m_state tim Pending l)) \<and>
      get_m_state (timer_heap_fixup tim (set_m_state tim Pending l)) tim = Pending \<and>
      trace (timer_heap_fixup tim (set_m_state tim Pending l)) = trace l @ [HeapFixup tim]) \<and>
   (heap_first (m_timer_heap l) = Some tim \<and> get_m_state l tim = Pending \<longrightarrow>
      prepare_timers_for_wait_loop l = Inr (m_time (timers l tim), l)) \<and>
   (heap_first (m_timer_heap l) = None \<longrightarrow>
      prepare_timers_for_wait_loop l = Inr (EventLoopTime_max, l)) \<and>
   (heap_first (m_timer_heap l) = Some tim \<and> get_m_state l tim \<in> {Idle, Dispatch} \<longrightarrow>
      prepare_timers_for_wait l = Inl AssertionFailed) \<and>
   (prepare_timers_for_wait l = Inr (info, l') \<longrightarrow>
      timeout_time_changed info = (timeout_time info \<noteq> m_last_wait_time l) \<and>
      m_last_wait_time l' = timeout_time info \<and>
      (case heap_first (m_timer_heap l') of
         None \<Rightarrow> timeout_time info = EventLoopTime_max
       | Some root \<Rightarrow> get_m_state l' root = Pending \<and>
                      timeout_time info = m_time (timers l' root)))"
proof -
  have fin: "timeout_time_changed info = (timeout_time info \<noteq> m_last_wait_time l) \<and>
      m_last_wait_time l' = timeout_time info \<and>
      (case heap_first (m_timer_heap l') of
         None \<Rightarrow> timeout_time info = EventLoopTime_max
       | Some root \<Rightarrow> get_m_state l' root = Pending \<and>
                      timeout_time info = m_time (timers l' root))"
    if r: "prepare_timers_for_wait l = Inr (info, l')"
  proof -
    from r obtain first_time l1 where
      loop: "prepare_timers_for_wait_loop l = Inr (first_time, l1)"
      and info: "info = \<lparr>timeout_time = first_time,
                         timeout_time_changed = (first_time \<noteq> m_last_wait_time l1)\<rparr>"
      and l': "l' = l1\<lparr>m_last_wait_time := first_time\<rparr>"
      by (auto simp: prepare_timers_for_wait_def Let_def split: sum.splits)
    from prepare_timers_for_wait_loop_result [OF loop] show ?thesis
      by (simp add: info l' get_m_state_def split: option.splits)
  qed
  show ?thesis
    using fin
    by (auto simp: prepare_timers_for_wait_loop.simps [of l] prepare_timers_for_wait_def
        get_m_state_def set_m_state_def timer_heap_remove_def timer_heap_fixup_def
        heap_remove_def)
qed



theorem prepare_timers_for_wait_root_witness:
  "prepare_timers_for_wait_loop example_in_handler
     = Inr (20, set_m_state 0 Idle (timer_heap_remove 0 example_in_handler)) \<and>
   m_timer_heap (set_m_state 0 Idle (timer_heap_remove 0 example_in_handler)) = [2] \<and>
   prepare_timers_for_wait_loop example_rearmed
     = Inr (20, timer_heap_fixup 0 (set_m_state 0 Pending example_rearmed)) \<and>
   m_timer_heap (timer_heap_fixup 0 (set_m_state 0 Pending example_rearmed)) = [2, 0] \<and>
   prepare_timers_for_wait_loop (EventLoop_new 0) = Inr (EventLoopTime_max, EventLoop_new 0) \<and>
   prepare_timers_for_wait (set_m_state 0 Dispatch example_armed) = Inl AssertionFailed \<and>
   prepare_timers_for_wait example_rearmed
     = Inr (\<lparr>timeout_time = 20, timeout_time_changed = True\<rparr>,
            (timer_heap_fixup 0 (set_m_state 0 Pending example_rearmed))\<lparr>m_last_wait_time := 20\<rparr>)"
proof -
  let ?a = "set_m_state 0 Idle (timer_heap_remove 0 example_in_handler)"
  let ?b = "timer_heap_fixup 0 (set_m_state 0 Pending example_rearmed)"
  have ha: "m_timer_heap ?a = [2]" "timers ?a 2 = \<lparr>m_time = 20, m_state = Pending\<rparr>"
    by (simp_all add: example_in_handler_fields timer_op_defs heap_remove_def)
  have hb: "m_timer_heap ?b = [2, 0]" "timers ?b 2 = \<lparr>m_time = 20, m_state = Pending\<rparr>"
    "m_last_wait_time ?b = EventLoopTime_max"
    by (simp_all add: example_rearmed_fields timer_op_defs heap_fixup_def compareEntries_def
        state_order_values)
  have 1: "prepare_timers_for_wait_loop example_in_handler = prepare_timers_for_wait_loop ?a"
    using prepare_timers_for_wait_root [of example_in_handler 0]
    by (simp add: example_in_handler_fields heap_first_def get_m_state_def)
  have 2: "prepare_timers_for_wait_loop ?a = Inr (20, ?a)"
    using prepare_timers_for_wait_root [of ?a 2]
    by (simp add: ha heap_first_def get_m_state_def)
  have 3: "prepare_timers_for_wait_loop example_rearmed = prepare_timers_for_wait_loop ?b"
    using prepare_timers_for_wait_root [of example_rearmed 0]
    by (simp add: example_rearmed_fields heap_first_def get_m_state_def)
  have 4: "prepare_timers_for_wait_loop ?b = Inr (20, ?b)"
    using prepare_timers_for_wait_root [of ?b 2]
    by (simp add: hb heap_first_def get_m_state_def)
  have 5: "prepare_timers_for_wait_loop (EventLoop_new 0) = Inr (EventLoopTime_max, EventLoop_new 0)"
    using prepare_timers_for_wait_root [of "EventLoop_new 0"]
    by (simp add: EventLoop_new_def heap_first_def)
  have 6: "prepare_timers_for_wait (set_m_state 0 Dispatch example_armed) = Inl AssertionFailed"
    using prepare_timers_for_wait_root [of "set_m_state 0 Dispatch example_armed" 0]
    by (simp add: example_armed_fields set_m_state_def heap_first_def get_m_state_def)
  have 7: "prepare_timers_for_wait example_rearmed
     = Inr (\<lparr>timeout_time = 20, timeout_time_changed = True\<rparr>, ?b\<lparr>m_last_wait_time := 20\<rparr>)"
    by (simp add: prepare_timers_for_wait_def 3 4 hb EventLoopTime_max_def)
  show ?thesis
    using 1 2 3 4 5 6 7 ha hb by simp
qed

section \<open>Async signals\<close>

lemmas call_defs = call_def setAt_def setAfter_def unset_def newTimer_def deleteTimer_def
  stop_def signal_def reset_def Let_def set_m_time_def set_m_state_def timer_heap_insert_def
  timer_heap_fixup_def timer_heap_remove_def initBefore_pending_def
  signalToCheckAsyncSignals_def markRemoved_def asig_list_remove_def isRemoved_def isLonely_def

lemma call_dispatch_subset:
  "set (m_dispatch_async_list (call a l)) \<subseteq> set (m_dispatch_async_list l)"
  by (cases a) (auto simp: call_defs)

lemma call_asig_wf: "asig_wf l \<Longrightarrow> asig_wf (call a l)"
  by (cases a) (auto simp: call_defs asig_wf_def distinct_removeAll)

lemma call_count_AsyncHandler:
  "count_list (trace (call a l)) (AsyncHandler n) = count_list (trace l) (AsyncHandler n)"
  by (cases a) (auto simp: call_defs)

lemma call_m_stop: "a \<noteq> Stop \<Longrightarrow> m_stop (call a l) = m_stop l"
  by (cases a) (auto simp: call_defs)

lemma call_dispatch_keeps:
  "a \<noteq> ResetSignal n \<Longrightarrow> n \<in> set (m_dispatch_async_list l) \<Longrightarrow>
     n \<in> set (m_dispatch_async_list (call a l))"
  by (cases a) (auto simp: call_defs)

lemma run_handler_dispatch_subset:
  "set (m_dispatch_async_list (run_handler acts l)) \<subseteq> set (m_dispatch_async_list l)"
  unfolding run_handler_def
proof (induction acts arbitrary: l)
  case Nil
  show ?case by simp
next
  case (Cons a acts)
  from Cons.IH [of "call a l"] call_dispatch_subset [of a l] show ?case by auto
qed

lemma run_handler_asig_wf: "asig_wf l \<Longrightarrow> asig_wf (run_handler acts l)"
  unfolding run_handler_def
  by (induction acts arbitrary: l) (simp_all add: call_asig_wf)

lemma run_handler_count_AsyncHandler:
  "count_list (trace (run_handler acts l)) (AsyncHandler n) = count_list (trace l) (AsyncHandler n)"
  unfolding run_handler_def
  by (induction acts arbitrary: l) (simp_all add: call_count_AsyncHandler)

lemma run_handler_m_stop:
  "Stop \<notin> set acts \<Longrightarrow> m_stop (run_handler acts l) = m_stop l"
  unfolding run_handler_def
proof (induction acts arbitrary: l)
  case Nil
  show ?case by simp
next
  case (Cons a acts)
  from Cons.prems have a: "a \<noteq> Stop" and rest: "Stop \<notin> set acts" by auto
  have "m_stop (fold call acts (call a l)) = m_stop (call a l)"
    by (rule Cons.IH [OF rest])
  also have "\<dots> = m_stop l" by (rule call_m_stop [OF a])
  finally show ?case by simp
qed

lemma run_handler_dispatch_keeps:
  "ResetSignal n \<notin> set acts \<Longrightarrow> n \<in> set (m_dispatch_async_list l) \<Longrightarrow>
     n \<in> set (m_dispatch_async_list (run_handler acts l))"
  unfolding run_handler_def
proof (induction acts arbitrary: l)
  case Nil
  then show ?case by simp
next
  case (Cons a acts)
  from Cons.prems(1) have a: "a \<noteq> ResetSignal n" and rest: "ResetSignal n \<notin> set acts"
    by auto
  have "n \<in> set (m_dispatch_async_list (call a l))"
    by (rule call_dispatch_keeps [OF a Cons.prems(2)])
  from Cons.IH [OF rest this] show ?case by simp
qed

text \<open>One pass of the loop in \<open>dispatch_async_signals\<close>: unlink the first node, run its handler.\<close>

lemma async_step_facts:
  fixes env :: environment
  assumes d: "m_dispatch_async_list l = node # rest" and wf: "asig_wf l"
  defines "l2 \<equiv> m_handler env node (markRemoved node (asig_list_remove node l))"
  shows "asig_wf l2"
    and "set (m_dispatch_async_list l2) \<subseteq> set rest"
    and "node \<notin> set rest"
    and "count_list (trace l2) (AsyncHandler n)
           = count_list (trace l) (AsyncHandler n) + (if node = n then 1 else 0)"
    and "\<not> isRemoved l node"
proof -
  let ?l1 = "(markRemoved node (asig_list_remove node l))\<lparr>trace := trace l @ [AsyncHandler node]\<rparr>"
  from d wf have nr: "node \<notin> set rest" by (auto simp: asig_wf_def)
  then have r: "removeAll node (node # rest) = rest" by simp
  have l2: "l2 = run_handler (asig_handler env node ?l1) ?l1"
    by (simp add: l2_def m_handler_def Let_def markRemoved_def asig_list_remove_def)
  have wf1: "asig_wf ?l1"
    using wf d nr by (auto simp: asig_wf_def markRemoved_def asig_list_remove_def distinct_removeAll)
  have d1: "m_dispatch_async_list ?l1 = rest"
    using r by (simp add: markRemoved_def asig_list_remove_def d)
  show "asig_wf l2" unfolding l2 by (rule run_handler_asig_wf [OF wf1])
  show "set (m_dispatch_async_list l2) \<subseteq> set rest"
    using run_handler_dispatch_subset [of "asig_handler env node ?l1" ?l1] d1 unfolding l2 by simp
  show "node \<notin> set rest" by (rule nr)
  show "count_list (trace l2) (AsyncHandler n)
           = count_list (trace l) (AsyncHandler n) + (if node = n then 1 else 0)"
    unfolding l2 by (simp add: run_handler_count_AsyncHandler markRemoved_def asig_list_remove_def)
  show "\<not> isRemoved l node" using wf d by (simp add: asig_wf_def isRemoved_def)
qed

lemma dispatch_async_loop_at_most_once:
  "asig_wf l \<Longrightarrow> dispatch_async_loop env l = Inr (ok, l') \<Longrightarrow>
     asig_wf l' \<and>
     count_list (trace l') (AsyncHandler n)
       \<le> count_list (trace l) (AsyncHandler n)
           + (if n \<in> set (m_dispatch_async_list l) then 1 else 0)"
proof (induction env l rule: dispatch_async_loop.induct)
  case (1 env l)
  show ?case
  proof (cases "m_dispatch_async_list l")
    case Nil
    with "1.prems" show ?thesis by (simp add: dispatch_async_loop.simps [of env l])
  next
    case (Cons node rest)
    let ?l1 = "markRemoved node (asig_list_remove node l)"
    let ?l2 = "m_handler env node ?l1"
    note f0 = async_step_facts [OF Cons "1.prems"(1)]
    note f = f0(1) [where env = env] f0(2) [where env = env] f0(3)
      f0(4) [where env = env and n = n] f0(5)
    show ?thesis
    proof (cases "m_stop ?l2")
      case True
      with "1.prems"(2) Cons f(5) have "l' = ?l2"
        by (simp add: dispatch_async_loop.simps [of env l] Let_def)
      with f(1) f(4) show ?thesis by (simp add: Cons)
    next
      case False
      with "1.prems"(2) Cons f(5) have r: "dispatch_async_loop env ?l2 = Inr (ok, l')"
        by (simp add: dispatch_async_loop.simps [of env l] Let_def)
      from "1.IH" [OF Cons f(5) refl refl False f(1) r]
      have "asig_wf l'" and "count_list (trace l') (AsyncHandler n)
           \<le> count_list (trace ?l2) (AsyncHandler n)
              + (if n \<in> set (m_dispatch_async_list ?l2) then 1 else 0)"
        by simp_all
      with f(2) f(3) f(4) show ?thesis by (auto simp: Cons split: if_splits)
    qed
  qed
qed

lemma example_signalled_fields:
  "m_pending_async_list example_signalled = [0, 2]"
  "m_dispatch_async_list example_signalled = []"
  "asig_removed example_signalled = (\<lambda>_. True)(0 := False, 2 := False)"
  "m_stop example_signalled = False"
  "trace example_signalled = [Wakeup]"
  by (simp_all add: example_signalled_def EventLoop_new_def call_defs)

lemma dispatch_async_loop_lonely:
  "dispatch_async_loop env l = Inr (ok, l') \<Longrightarrow>
     (ok \<longrightarrow> m_dispatch_async_list l' = []) \<and> (\<not> ok \<longrightarrow> m_stop l') \<and>
     set (m_dispatch_async_list l') \<subseteq> set (m_dispatch_async_list l)"
proof (induction env l rule: dispatch_async_loop.induct)
  case (1 env l)
  show ?case
  proof (cases "m_dispatch_async_list l")
    case Nil
    with "1.prems" show ?thesis by (auto simp: dispatch_async_loop.simps [of env l])
  next
    case (Cons node rest)
    let ?l1 = "markRemoved node (asig_list_remove node l)"
    let ?l1' = "?l1\<lparr>trace := trace ?l1 @ [AsyncHandler node]\<rparr>"
    let ?l2 = "m_handler env node ?l1"
    from "1.prems" Cons have nr: "\<not> isRemoved l node"
      by (auto simp: dispatch_async_loop.simps [of env l] split: if_splits)
    have "set (m_dispatch_async_list ?l2) \<subseteq> set (m_dispatch_async_list ?l1')"
      unfolding m_handler_def Let_def by (rule run_handler_dispatch_subset)
    then have sub: "set (m_dispatch_async_list ?l2) \<subseteq> set (m_dispatch_async_list l)"
      by (auto simp: markRemoved_def asig_list_remove_def)
    show ?thesis
    proof (cases "m_stop ?l2")
      case True
      with "1.prems" Cons nr have "ok = False" "l' = ?l2"
        by (simp_all add: dispatch_async_loop.simps [of env l] Let_def)
      with True sub show ?thesis by simp
    next
      case False
      with "1.prems" Cons nr have r: "dispatch_async_loop env ?l2 = Inr (ok, l')"
        by (simp add: dispatch_async_loop.simps [of env l] Let_def)
      from "1.IH" [OF Cons nr refl refl False r] sub show ?thesis by auto
    qed
  qed
qed

lemma dispatch_timers_dispatch_list:
  "dispatch_timers env l = Inr (ok, l') \<Longrightarrow>
     set (m_dispatch_async_list l') \<subseteq> set (m_dispatch_async_list l)"
proof (induction env l rule: dispatch_timers.induct)
  case (1 env l)
  show ?case
  proof (cases "heap_first (m_timer_heap l)")
    case None
    with "1.prems" show ?thesis by (simp add: dispatch_timers.simps [of env l])
  next
    case (Some tim)
    let ?l1 = "timer_heap_fixup tim (set_m_state tim TempUnset l)"
    let ?l2 = "handleTimerExpired env tim ?l1"
    have sub: "set (m_dispatch_async_list ?l2) \<subseteq> set (m_dispatch_async_list l)"
      using run_handler_dispatch_subset
        [of "timer_handler env tim (?l1\<lparr>trace := trace ?l1 @ [TimerExpired tim]\<rparr>)"
            "?l1\<lparr>trace := trace ?l1 @ [TimerExpired tim]\<rparr>"]
      by (simp add: handleTimerExpired_def Let_def timer_heap_fixup_def set_m_state_def)
    show ?thesis
    proof (cases "get_m_state l tim = Dispatch")
      case False
      with "1.prems" Some show ?thesis
        by (auto simp: dispatch_timers.simps [of env l] split: if_splits)
    next
      case True
      then have ni: "get_m_state l tim \<noteq> Idle" and d: "\<not> get_m_state l tim \<noteq> Dispatch"
        by simp_all
      show ?thesis
      proof (cases "m_stop ?l2")
        case True
        with "1.prems" Some ni d have "l' = ?l2"
          by (simp add: dispatch_timers.simps [of env l] Let_def)
        with sub show ?thesis by simp
      next
        case False
        with "1.prems" Some ni d have r: "dispatch_timers env ?l2 = Inr (ok, l')"
          by (simp add: dispatch_timers.simps [of env l] Let_def)
        from "1.IH" [OF Some ni d refl refl False r] sub show ?thesis by auto
      qed
    qed
  qed
qed

lemma visit_timers_async:
  "visit_timers tims l = Inr l' \<Longrightarrow>
     m_dispatch_async_list l' = m_dispatch_async_list l \<and>
     m_pending_async_list l' = m_pending_async_list l \<and> m_stop l' = m_stop l \<and>
     trace l' = trace l \<and> m_timer_heap l' = m_timer_heap l"
  by (induction tims arbitrary: l) (auto simp: set_m_state_def split: if_splits)

lemma prepare_timers_for_wait_loop_async:
  "prepare_timers_for_wait_loop l = Inr (t, l') \<Longrightarrow>
     m_dispatch_async_list l' = m_dispatch_async_list l \<and>
     m_pending_async_list l' = m_pending_async_list l \<and> m_stop l' = m_stop l"
proof (induction l rule: prepare_timers_for_wait_loop.induct)
  case (1 l)
  show ?case
  proof (cases "heap_first (m_timer_heap l)")
    case None
    with "1.prems" show ?thesis by (simp add: prepare_timers_for_wait_loop.simps [of l])
  next
    case (Some tim)
    show ?thesis
    proof (cases "get_m_state l tim")
      case TempUnset
      with "1.prems" Some
      have "prepare_timers_for_wait_loop (set_m_state tim Idle (timer_heap_remove tim l)) = Inr (t, l')"
        by (simp add: prepare_timers_for_wait_loop.simps [of l])
      moreover have "\<not> get_m_state l tim \<notin> {TempUnset, TempSet, Pending}"
        using TempUnset by simp
      ultimately show ?thesis
        using "1.IH"(1) [OF Some _ TempUnset] by (simp add: set_m_state_def timer_heap_remove_def)
    next
      case TempSet
      with "1.prems" Some
      have "prepare_timers_for_wait_loop (timer_heap_fixup tim (set_m_state tim Pending l)) = Inr (t, l')"
        by (simp add: prepare_timers_for_wait_loop.simps [of l])
      moreover have "\<not> get_m_state l tim \<notin> {TempUnset, TempSet, Pending}"
        and "get_m_state l tim \<noteq> TempUnset"
        using TempSet by simp_all
      ultimately show ?thesis
        using "1.IH"(2) [OF Some _ _ TempSet] by (simp add: set_m_state_def timer_heap_fixup_def)
    qed (use "1.prems" Some in \<open>auto simp: prepare_timers_for_wait_loop.simps [of l]\<close>)
  qed
qed

lemma fold_signal_dispatch_list:
  "m_dispatch_async_list (fold signal ns l) = m_dispatch_async_list l"
  by (induction ns arbitrary: l) (simp_all add: call_defs)





section \<open>A timer set in a handler does not fire in the same pass\<close>

lemma fired_after_set_append:
  "fired_after_set tim (A @ B) \<longleftrightarrow>
     fired_after_set tim A \<or> fired_after_set tim B \<or>
     ((\<exists>e\<in>set A. rearms tim e) \<and> TimerExpired tim \<in> set B)"
  by (induction A) auto

lemma fired_after_set_iff:
  "fired_after_set tim T \<longleftrightarrow>
     (\<exists>A e B. T = A @ e # B \<and> rearms tim e \<and> TimerExpired tim \<in> set B)"
proof
  show "fired_after_set tim T \<Longrightarrow> \<exists>A e B. T = A @ e # B \<and> rearms tim e \<and> TimerExpired tim \<in> set B"
  proof (induction T)
    case Nil
    then show ?case by simp
  next
    case (Cons a T)
    show ?case
    proof (cases "rearms tim a \<and> TimerExpired tim \<in> set T")
      case True
      then have "a # T = [] @ a # T \<and> rearms tim a \<and> TimerExpired tim \<in> set T" by simp
      then show ?thesis by blast
    next
      case False
      with Cons.prems have "fired_after_set tim T" by auto
      from Cons.IH [OF this] obtain A e B where
        "T = A @ e # B" "rearms tim e" "TimerExpired tim \<in> set B" by blast
      then have "a # T = (a # A) @ e # B \<and> rearms tim e \<and> TimerExpired tim \<in> set B" by simp
      then show ?thesis by blast
    qed
  qed
next
  assume "\<exists>A e B. T = A @ e # B \<and> rearms tim e \<and> TimerExpired tim \<in> set B"
  then obtain A e B where "T = A @ e # B" "rearms tim e" "TimerExpired tim \<in> set B" by blast
  then show "fired_after_set tim T" by (simp add: fired_after_set_append)
qed

lemma quiet_events:
  "\<forall>e\<in>set hs. \<forall>x. \<not> rearms x e \<and> e \<noteq> TimerExpired x \<Longrightarrow>
     \<not> fired_after_set tim hs \<and> TimerExpired tim \<notin> set hs \<and> \<not> (\<exists>e\<in>set hs. rearms tim e)"
  by (induction hs) auto

lemma setAt_trace:
  "\<exists>hs. trace (setAt tim t l) = trace l @ hs \<and>
     (\<forall>e\<in>set hs. \<forall>x. \<not> rearms x e \<and> e \<noteq> TimerExpired x)"
  by (simp add: timer_op_defs)

lemma call_trace:
  "\<exists>hs. trace (call a l) = trace l @ Call a # hs \<and>
     (\<forall>e\<in>set hs. \<forall>x. \<not> rearms x e \<and> e \<noteq> TimerExpired x)"
proof (cases a)
  case (SetAt tim t)
  from setAt_trace [of tim t "l\<lparr>trace := trace l @ [Call a]\<rparr>"] show ?thesis
    by (simp add: call_def SetAt)
next
  case (SetAfter tim d)
  from setAt_trace [of tim "time_plus (getEventTime (l\<lparr>trace := trace l @ [Call a]\<rparr>)) d"
      "l\<lparr>trace := trace l @ [Call a]\<rparr>"] show ?thesis
    by (simp add: call_def SetAfter setAfter_def)
qed (simp_all add: call_defs)

lemma call_not_Dispatch:
  "get_m_state (call a l) tim = Dispatch \<Longrightarrow> get_m_state l tim = Dispatch"
  by (cases a) (auto simp: call_defs get_m_state_def EventLoopTimer_new_def split: if_splits)

lemma call_rearmed_not_Dispatch:
  "rearms tim (Call a) \<Longrightarrow> get_m_state (call a l) tim \<noteq> Dispatch"
  by (cases a) (auto simp: call_defs get_m_state_def split: if_splits)

lemma pass_inv_call:
  assumes "pass_inv t0 l0 l"
  shows "pass_inv t0 l0 (call a l)"
proof -
  from assms obtain T where T: "trace l = t0 @ T"
    and inv: "\<And>tim. \<not> fired_after_set tim T \<and>
           ((\<exists>e\<in>set T. rearms tim e) \<longrightarrow> get_m_state l tim \<noteq> Dispatch) \<and>
           (get_m_state l tim = Dispatch \<longrightarrow> get_m_state l0 tim = Dispatch) \<and>
           (TimerExpired tim \<in> set T \<longrightarrow> get_m_state l0 tim = Dispatch)"
    unfolding pass_inv_def by blast
  from call_trace [of a l] obtain hs where hs: "trace (call a l) = trace l @ Call a # hs"
    and q: "\<forall>e\<in>set hs. \<forall>x. \<not> rearms x e \<and> e \<noteq> TimerExpired x" by blast
  let ?T = "T @ Call a # hs"
  have tr: "trace (call a l) = t0 @ ?T" by (simp add: hs T)
  have "\<not> fired_after_set tim ?T \<and>
           ((\<exists>e\<in>set ?T. rearms tim e) \<longrightarrow> get_m_state (call a l) tim \<noteq> Dispatch) \<and>
           (get_m_state (call a l) tim = Dispatch \<longrightarrow> get_m_state l0 tim = Dispatch) \<and>
           (TimerExpired tim \<in> set ?T \<longrightarrow> get_m_state l0 tim = Dispatch)" for tim
  proof -
    note qt = quiet_events [OF q, of tim]
    have 1: "\<not> fired_after_set tim ?T"
      using inv [of tim] qt by (simp add: fired_after_set_append)
    have 2: "get_m_state (call a l) tim \<noteq> Dispatch" if "\<exists>e\<in>set ?T. rearms tim e"
    proof -
      from that qt have "(\<exists>e\<in>set T. rearms tim e) \<or> rearms tim (Call a)" by auto
      then show ?thesis
        using inv [of tim] call_not_Dispatch [of a l tim] call_rearmed_not_Dispatch [of tim a l]
        by blast
    qed
    have 3: "get_m_state l0 tim = Dispatch" if "get_m_state (call a l) tim = Dispatch"
      using inv [of tim] call_not_Dispatch [OF that] by blast
    have 4: "get_m_state l0 tim = Dispatch" if "TimerExpired tim \<in> set ?T"
      using that qt inv [of tim] by auto
    from 1 2 3 4 show ?thesis by blast
  qed
  with tr show ?thesis unfolding pass_inv_def by blast
qed

lemma pass_inv_run_handler: "pass_inv t0 l0 l \<Longrightarrow> pass_inv t0 l0 (run_handler acts l)"
  unfolding run_handler_def
  by (induction acts arbitrary: l) (simp_all add: pass_inv_call)

lemma pass_inv_fire:
  assumes "pass_inv t0 l0 l" and d: "get_m_state l tim = Dispatch"
  shows "pass_inv t0 l0 (handleTimerExpired env tim
           (timer_heap_fixup tim (set_m_state tim TempUnset l)))"
proof -
  from assms(1) obtain T where T: "trace l = t0 @ T"
    and inv: "\<And>x. \<not> fired_after_set x T \<and>
           ((\<exists>e\<in>set T. rearms x e) \<longrightarrow> get_m_state l x \<noteq> Dispatch) \<and>
           (get_m_state l x = Dispatch \<longrightarrow> get_m_state l0 x = Dispatch) \<and>
           (TimerExpired x \<in> set T \<longrightarrow> get_m_state l0 x = Dispatch)"
    unfolding pass_inv_def by blast
  let ?l1 = "timer_heap_fixup tim (set_m_state tim TempUnset l)"
  let ?l1' = "?l1\<lparr>trace := trace ?l1 @ [TimerExpired tim]\<rparr>"
  let ?T = "T @ [HeapFixup tim, TimerExpired tim]"
  have tr: "trace ?l1' = t0 @ ?T" by (simp add: timer_heap_fixup_def set_m_state_def T)
  have st: "get_m_state ?l1' x = (if x = tim then TempUnset else get_m_state l x)" for x
    by (simp add: timer_heap_fixup_def set_m_state_def get_m_state_def)
  have "\<not> fired_after_set x ?T \<and>
           ((\<exists>e\<in>set ?T. rearms x e) \<longrightarrow> get_m_state ?l1' x \<noteq> Dispatch) \<and>
           (get_m_state ?l1' x = Dispatch \<longrightarrow> get_m_state l0 x = Dispatch) \<and>
           (TimerExpired x \<in> set ?T \<longrightarrow> get_m_state l0 x = Dispatch)" for x
    using inv [of x] inv [of tim] d by (auto simp: fired_after_set_append st)
  with tr have "pass_inv t0 l0 ?l1'" unfolding pass_inv_def by blast
  then show ?thesis
    unfolding handleTimerExpired_def Let_def by (rule pass_inv_run_handler)
qed

lemma pass_inv_dispatch_timers:
  "pass_inv t0 l0 l \<Longrightarrow> dispatch_timers env l = Inr (ok, l') \<Longrightarrow> pass_inv t0 l0 l'"
proof (induction env l rule: dispatch_timers.induct)
  case (1 env l)
  show ?case
  proof (cases "heap_first (m_timer_heap l)")
    case None
    with "1.prems" show ?thesis by (simp add: dispatch_timers.simps [of env l])
  next
    case (Some tim)
    let ?l1 = "timer_heap_fixup tim (set_m_state tim TempUnset l)"
    let ?l2 = "handleTimerExpired env tim ?l1"
    show ?thesis
    proof (cases "get_m_state l tim = Dispatch")
      case False
      with "1.prems" Some show ?thesis
        by (auto simp: dispatch_timers.simps [of env l] split: if_splits)
    next
      case True
      then have ni: "get_m_state l tim \<noteq> Idle" and d: "\<not> get_m_state l tim \<noteq> Dispatch"
        by simp_all
      have inv2: "pass_inv t0 l0 ?l2" by (rule pass_inv_fire [OF "1.prems"(1) True])
      show ?thesis
      proof (cases "m_stop ?l2")
        case True
        with "1.prems"(2) Some ni d have "l' = ?l2"
          by (simp add: dispatch_timers.simps [of env l] Let_def)
        with inv2 show ?thesis by simp
      next
        case False
        with "1.prems"(2) Some ni d have r: "dispatch_timers env ?l2 = Inr (ok, l')"
          by (simp add: dispatch_timers.simps [of env l] Let_def)
        from "1.IH" [OF Some ni d refl refl False inv2 r] show ?thesis .
      qed
    qed
  qed
qed

lemma example_armed_stop: "m_stop example_armed = False"
  by (simp add: example_armed_def EventLoop_new_def timer_op_defs)

lemma example_due_fields:
  "m_timer_heap example_due = [0, 2]"
  "timers example_due 0 = \<lparr>m_time = 5, m_state = Dispatch\<rparr>"
  "timers example_due 2 = \<lparr>m_time = 20, m_state = Dispatch\<rparr>"
  "trace example_due = [HeapInsert 0, HeapInsert 2]"
  "m_stop example_due = False"
  by (simp_all add: example_due_def example_armed_fields example_armed_stop set_m_state_def)

lemma example_due_prepared: "prepare_timers_for_dispatch 30 example_armed = Inr example_due"
  by (simp add: prepare_timers_for_dispatch_def compareKeyEntry_def example_armed_fields
      get_m_state_def example_due_def heap_valid_def compareEntries_def state_order_values
      set_m_state_def)

text \<open>
  Claim C6. After \<open>setAt\<close> or \<open>setAfter\<close> a timer is never in \<open>Dispatch\<close>, whatever the
  deadline, and no call a handler can make puts a timer into \<open>Dispatch\<close> that was not
  there. In a pass of \<open>dispatch_timers\<close> every timer whose handler runs was in
  \<open>Dispatch\<close> when the pass began, and once a handler has called \<open>setAt\<close> or \<open>setAfter\<close>
  on a timer, that timer's handler is not invoked in the rest of the pass.
\<close>

theorem rearmed_timer_not_fired:
  "get_m_state (setAt tim t l) tim \<noteq> Dispatch \<and>
   get_m_state (setAfter tim d l) tim \<noteq> Dispatch \<and>
   (get_m_state (call a l) tim = Dispatch \<longrightarrow> get_m_state l tim = Dispatch) \<and>
   (dispatch_timers env l = Inr (ok, l') \<longrightarrow>
      (\<exists>T. trace l' = trace l @ T \<and>
         (\<forall>x. TimerExpired x \<in> set T \<longrightarrow> get_m_state l x = Dispatch) \<and>
         (\<forall>x A e B. T = A @ e # B \<and> rearms x e \<longrightarrow> TimerExpired x \<notin> set B)))"
proof -
  have pass: "\<exists>T. trace l' = trace l @ T \<and>
         (\<forall>x. TimerExpired x \<in> set T \<longrightarrow> get_m_state l x = Dispatch) \<and>
         (\<forall>x A e B. T = A @ e # B \<and> rearms x e \<longrightarrow> TimerExpired x \<notin> set B)"
    if r: "dispatch_timers env l = Inr (ok, l')"
  proof -
    have "pass_inv (trace l) l l" by (simp add: pass_inv_def)
    from pass_inv_dispatch_timers [OF this r] obtain T where T: "trace l' = trace l @ T"
      and inv: "\<And>x. \<not> fired_after_set x T \<and>
           (TimerExpired x \<in> set T \<longrightarrow> get_m_state l x = Dispatch)"
      unfolding pass_inv_def by blast
    have "TimerExpired x \<notin> set B" if "T = A @ e # B" "rearms x e" for x A e B
      using inv [of x] that fired_after_set_iff [of x T] by blast
    with T inv show ?thesis by blast
  qed
  have "get_m_state (setAt tim t l) tim \<noteq> Dispatch"
    "get_m_state (setAfter tim d l) tim \<noteq> Dispatch"
    by (simp_all add: setAfter_def timer_op_defs)
  with pass call_not_Dispatch [of a l tim] show ?thesis by blast
qed

theorem rearmed_timer_not_fired_witness:
  "\<not> isl (dispatch_timers example_env example_due) \<and>
   fst (projr (dispatch_timers example_env example_due)) \<and>
   trace (snd (projr (dispatch_timers example_env example_due)))
     = trace example_due @
       [HeapFixup 0, TimerExpired 0, Call (SetAt 2 1), HeapFixup 2, Call (SetAt 0 3)] \<and>
   get_m_state example_due 2 = Dispatch \<and>
   timers (snd (projr (dispatch_timers example_env example_due))) 2
     = \<lparr>m_time = 1, m_state = Pending\<rparr> \<and>
   TimerExpired 2 \<notin> set [HeapFixup 2, Call (SetAt 0 3)]"
proof -
  let ?X = "dispatch_timers example_env example_due"
  let ?T = "[HeapFixup 0, TimerExpired 0, Call (SetAt 2 1), HeapFixup 2, Call (SetAt 0 3)]"
  have ev: "\<not> isl ?X \<and> fst (projr ?X) \<and> trace (snd (projr ?X)) = trace example_due @ ?T \<and>
      timers (snd (projr ?X)) 2 = \<lparr>m_time = 1, m_state = Pending\<rparr>"
    by (simp add: dispatch_timers.simps heap_first_def example_due_fields example_env_def
        handleTimerExpired_def run_handler_def call_def timer_op_defs heap_fixup_def
        compareEntries_def state_order_values)
  then have X: "?X = Inr (fst (projr ?X), snd (projr ?X))"
    by (cases ?X) (simp_all add: prod_eq_iff)
  from rearmed_timer_not_fired [of 2 1 example_due 0 "Stop" example_env
      "fst (projr ?X)" "snd (projr ?X)"] X
  obtain T where T: "trace (snd (projr ?X)) = trace example_due @ T"
    and after: "\<And>x A e B. T = A @ e # B \<and> rearms x e \<Longrightarrow> TimerExpired x \<notin> set B"
    by blast
  from T ev have "T = ?T" by simp
  then have "T = [HeapFixup 0, TimerExpired 0] @ Call (SetAt 2 1) # [HeapFixup 2, Call (SetAt 0 3)]
      \<and> rearms 2 (Call (SetAt 2 1))"
    by simp
  from after [OF this] ev show ?thesis
    by (simp add: get_m_state_def example_due_fields)
qed

section \<open>Repeated signals and the dispatch list\<close>

lemma handler_event_simps [simp]:
  "handler_event (Call a)" "handler_event (HeapInsert x)" "handler_event (HeapRemove x)"
  "handler_event (HeapFixup x)" "handler_event Wakeup"
  "\<not> handler_event (TimerExpired x)" "\<not> handler_event (AsyncHandler n)"
  "\<not> handler_event (GetTime t)" "\<not> handler_event DispatchEvents"
  "\<not> handler_event (WaitForEvents t b)"
  by (simp_all add: handler_event_def)

lemma setAt_trace_internal:
  "\<exists>hs. trace (setAt tim t l) = trace l @ hs \<and> list_all internal_event hs"
  by (simp add: timer_op_defs)

lemma call_trace_internal:
  "\<exists>hs. trace (call a l) = trace l @ Call a # hs \<and> list_all internal_event hs"
proof (cases a)
  case (SetAt tim t)
  from setAt_trace_internal [of tim t "l\<lparr>trace := trace l @ [Call a]\<rparr>"] show ?thesis
    by (simp add: call_def SetAt)
next
  case (SetAfter tim d)
  from setAt_trace_internal [of tim "time_plus (getEventTime (l\<lparr>trace := trace l @ [Call a]\<rparr>)) d"
      "l\<lparr>trace := trace l @ [Call a]\<rparr>"] show ?thesis
    by (simp add: call_def SetAfter setAfter_def)
qed (simp_all add: call_defs)

lemma internal_not_Call: "list_all internal_event hs \<Longrightarrow> Call a \<notin> set hs"
  by (induction hs) auto

lemma internal_handler_event: "list_all internal_event hs \<Longrightarrow> list_all handler_event hs"
  by (induction hs) (auto simp: handler_event_def)

lemma run_handler_trace:
  "\<exists>T. trace (run_handler acts l) = trace l @ T \<and> list_all handler_event T \<and>
     (\<forall>a. Call a \<in> set T \<longleftrightarrow> a \<in> set acts)"
  unfolding run_handler_def
proof (induction acts arbitrary: l)
  case Nil
  show ?case by simp
next
  case (Cons a acts)
  from call_trace_internal [of a l] obtain hs where
    hs: "trace (call a l) = trace l @ Call a # hs" "list_all internal_event hs" by blast
  from Cons.IH [of "call a l"] obtain T where
    T: "trace (fold call acts (call a l)) = trace (call a l) @ T" "list_all handler_event T"
      "\<forall>b. Call b \<in> set T \<longleftrightarrow> b \<in> set acts" by blast
  let ?T = "Call a # hs @ T"
  have "trace (fold call (a # acts) l) = trace l @ ?T" using hs T by simp
  moreover have "list_all handler_event ?T"
    using hs(2) T(2) internal_handler_event by simp
  moreover have "\<forall>b. Call b \<in> set ?T \<longleftrightarrow> b \<in> set (a # acts)"
    using T(3) internal_not_Call [OF hs(2)] by auto
  ultimately show ?case by blast
qed

lemma call_dispatch_exact:
  "asig_wf l \<Longrightarrow>
     m_dispatch_async_list (call a l) = filter (\<lambda>x. a \<noteq> ResetSignal x) (m_dispatch_async_list l)"
proof (cases a)
  case (ResetSignal n)
  assume wf: "asig_wf l"
  have eq: "filter (\<lambda>x. n \<noteq> x) xs = removeAll n xs" for xs :: "nat list"
    by (induction xs) auto
  show ?thesis
  proof (cases "asig_removed l n")
    case True
    with wf have "n \<notin> set (m_dispatch_async_list l)" by (simp add: asig_wf_def)
    then have "removeAll n (m_dispatch_async_list l) = m_dispatch_async_list l" by simp
    with True ResetSignal show ?thesis by (simp add: call_defs eq)
  next
    case False
    with ResetSignal show ?thesis by (simp add: call_defs eq)
  qed
qed (simp_all add: call_defs)

lemma run_handler_dispatch_exact:
  "asig_wf l \<Longrightarrow>
     m_dispatch_async_list (run_handler acts l)
       = filter (\<lambda>x. ResetSignal x \<notin> set acts) (m_dispatch_async_list l)"
proof (induction acts arbitrary: l)
  case Nil
  show ?case by (simp add: run_handler_def)
next
  case (Cons a acts)
  have "m_dispatch_async_list (run_handler (a # acts) l)
          = m_dispatch_async_list (run_handler acts (call a l))"
    by (simp add: run_handler_def)
  also have "\<dots> = filter (\<lambda>x. ResetSignal x \<notin> set acts) (m_dispatch_async_list (call a l))"
    by (rule Cons.IH [OF call_asig_wf [OF Cons.prems]])
  also have "\<dots> = filter (\<lambda>x. ResetSignal x \<notin> set (a # acts)) (m_dispatch_async_list l)"
    by (auto simp: call_dispatch_exact [OF Cons.prems] intro: filter_cong)
  finally show ?case .
qed

lemma dispatch_async_loop_contents:
  "asig_wf l \<Longrightarrow> dispatch_async_loop env l = Inr (ok, l') \<Longrightarrow>
     \<exists>T. trace l' = trace l @ T \<and>
       m_dispatch_async_list l'
         = filter (\<lambda>x. AsyncHandler x \<notin> set T \<and> Call (ResetSignal x) \<notin> set T)
             (m_dispatch_async_list l)"
proof (induction env l rule: dispatch_async_loop.induct)
  case (1 env l)
  show ?case
  proof (cases "m_dispatch_async_list l")
    case Nil
    with "1.prems" have "l' = l" by (simp add: dispatch_async_loop.simps [of env l])
    with Nil show ?thesis by simp
  next
    case (Cons node rest)
    let ?l1 = "markRemoved node (asig_list_remove node l)"
    let ?l1' = "?l1\<lparr>trace := trace ?l1 @ [AsyncHandler node]\<rparr>"
    let ?acts = "asig_handler env node ?l1'"
    let ?l2 = "m_handler env node ?l1"
    note f0 = async_step_facts [OF Cons "1.prems"(1)]
    note wf2 = f0(1) [where env = env] and nr = f0(3) and nrem = f0(5)
    have l2: "?l2 = run_handler ?acts ?l1'" by (simp add: m_handler_def Let_def)
    have wf1: "asig_wf ?l1'"
      using "1.prems"(1) Cons nr
      by (auto simp: asig_wf_def markRemoved_def asig_list_remove_def distinct_removeAll)
    have d1: "m_dispatch_async_list ?l1' = rest"
      using nr by (simp add: markRemoved_def asig_list_remove_def Cons)
    have d2: "m_dispatch_async_list ?l2 = filter (\<lambda>x. ResetSignal x \<notin> set ?acts) rest"
      unfolding l2 using run_handler_dispatch_exact [OF wf1, of ?acts] d1 by simp
    from run_handler_trace [of ?acts ?l1'] obtain Th where
      Th: "trace ?l2 = trace ?l1' @ Th" "list_all handler_event Th"
        "\<forall>a. Call a \<in> set Th \<longleftrightarrow> a \<in> set ?acts"
      unfolding l2 by blast
    have nh: "AsyncHandler x \<notin> set Th" for x
      using Th(2) by (auto simp: list_all_iff)
    have t2: "trace ?l2 = trace l @ AsyncHandler node # Th"
      using Th(1) by (simp add: markRemoved_def asig_list_remove_def)
    show ?thesis
    proof (cases "m_stop ?l2")
      case True
      with "1.prems"(2) Cons nrem have l': "l' = ?l2"
        by (simp add: dispatch_async_loop.simps [of env l] Let_def)
      have "m_dispatch_async_list ?l2
          = filter (\<lambda>x. AsyncHandler x \<notin> set (AsyncHandler node # Th) \<and>
                        Call (ResetSignal x) \<notin> set (AsyncHandler node # Th)) (node # rest)"
        unfolding d2 using nr nh Th(3) by (auto intro: filter_cong)
      with t2 show ?thesis unfolding l' Cons by blast
    next
      case False
      with "1.prems"(2) Cons nrem have r: "dispatch_async_loop env ?l2 = Inr (ok, l')"
        by (simp add: dispatch_async_loop.simps [of env l] Let_def)
      from "1.IH" [OF Cons nrem refl refl False wf2 r] obtain T2 where
        T2: "trace l' = trace ?l2 @ T2"
          "m_dispatch_async_list l'
             = filter (\<lambda>x. AsyncHandler x \<notin> set T2 \<and> Call (ResetSignal x) \<notin> set T2)
                 (m_dispatch_async_list ?l2)"
        by blast
      let ?T = "AsyncHandler node # Th @ T2"
      have "trace l' = trace l @ ?T" using T2(1) t2 by simp
      moreover have "m_dispatch_async_list l'
          = filter (\<lambda>x. AsyncHandler x \<notin> set ?T \<and> Call (ResetSignal x) \<notin> set ?T) (node # rest)"
        unfolding T2(2) d2 using nr nh Th(3) by (auto intro: filter_cong)
      ultimately show ?thesis unfolding Cons by blast
    qed
  qed
qed

lemma dispatch_async_loop_wf:
  "asig_wf l \<Longrightarrow> dispatch_async_loop env l = Inr (ok, l') \<Longrightarrow> asig_wf l'"
  using dispatch_async_loop_at_most_once [of l env ok l' 0] by simp



lemma dispatch_os_events_lonely:
  "m_dispatch_async_list l = [] \<Longrightarrow> dispatch_os_events env evs l = Inr (True, l') \<Longrightarrow>
     m_dispatch_async_list l' = []"
proof (induction env evs l rule: dispatch_os_events.induct)
  case (1 env l)
  then show ?case by simp
next
  case (2 env acts evs l)
  let ?l1 = "run_handler acts l"
  from "2.prems"(2) have ns: "\<not> m_stop ?l1" and r: "dispatch_os_events env evs ?l1 = Inr (True, l')"
    by (auto simp: Let_def split: if_splits)
  have "m_dispatch_async_list ?l1 = []"
    using run_handler_dispatch_subset [of acts l] "2.prems"(1) by simp
  from "2.IH" [OF refl ns this r] show ?case .
next
  case (3 env evs l)
  from "3.prems"(2) obtain l1 where a: "dispatch_async_signals env l = Inr (True, l1)"
    and r: "dispatch_os_events env evs l1 = Inr (True, l')"
    by (auto split: sum.splits if_splits)
  have "m_dispatch_async_list l1 = []"
  proof (cases "m_pending_async_list l = []")
    case True
    with a "3.prems"(1) show ?thesis by (auto simp: dispatch_async_signals_def isLonely_def)
  next
    case False
    with a "3.prems"(1) have "dispatch_async_loop env
        (l\<lparr>m_dispatch_async_list := m_pending_async_list l, m_pending_async_list := []\<rparr>)
        = Inr (True, l1)"
      by (simp add: dispatch_async_signals_def isLonely_def)
    from dispatch_async_loop_lonely [OF this] show ?thesis by simp
  qed
  from "3.IH" [OF a refl _ this r] show ?case by simp
qed




text \<open>
  Claim C8, as stated, fails: when the handler of the first of two queued signals stops
  the loop, \<open>dispatch_async_signals\<close> returns false with the second signal still on the
  dispatch list.
\<close>

theorem dispatch_list_lonely_counterexample:
  "\<not> isl (dispatch_async_signals example_stop_env example_signalled) \<and>
   fst (projr (dispatch_async_signals example_stop_env example_signalled)) = False \<and>
   m_dispatch_async_list (snd (projr (dispatch_async_signals example_stop_env example_signalled)))
     = [2]"
  by (simp add: dispatch_async_signals_def dispatch_async_loop.simps isLonely_def isRemoved_def
      example_signalled_fields example_stop_env_def example_env_def m_handler_def
      run_handler_def call_def stop_def markRemoved_def asig_list_remove_def Let_def)

text \<open>
  Claim C8, amended. \<open>dispatch_async_signals\<close> fails its entry assertion unless the
  dispatch list is lonely. With well-formed signal lists, when it returns the dispatch
  list holds, in the order of the batch, exactly the nodes of the pending list on entry
  whose handler was not invoked and on which no handler called \<open>reset\<close> during the
  dispatch; none of them is marked removed. When it returns true the dispatch list is
  lonely; when it returns false stop is set. A node on the dispatch list stays on it over
  every call a handler can make other than \<open>reset\<close> of that node, which unlinks it and
  marks it removed. Nothing else puts a node on the dispatch list: a lonely dispatch
  list stays lonely over every handler call, over \<open>dispatch_timers\<close>, both timer
  preparations, the provider's dispatch when it returns true, and the wait.
\<close>

theorem dispatch_list_contents:
  "(m_dispatch_async_list l \<noteq> [] \<longrightarrow> dispatch_async_signals env l = Inl AssertionFailed) \<and>
   (asig_wf l \<and> dispatch_async_signals env l = Inr (ok, l') \<longrightarrow>
      (\<exists>T. trace l' = trace l @ T \<and>
         m_dispatch_async_list l'
           = filter (\<lambda>x. AsyncHandler x \<notin> set T \<and> Call (ResetSignal x) \<notin> set T)
               (m_pending_async_list l)) \<and>
      (\<forall>x. x \<in> set (m_dispatch_async_list l') \<longrightarrow> \<not> isRemoved l' x) \<and>
      (ok \<longrightarrow> m_dispatch_async_list l' = []) \<and>
      (\<not> ok \<longrightarrow> m_stop l') \<and>
      asig_wf l') \<and>
   (asig_wf l \<and> x \<in> set (m_dispatch_async_list l) \<longrightarrow>
      (a \<noteq> ResetSignal x \<longrightarrow> x \<in> set (m_dispatch_async_list (call a l))) \<and>
      x \<notin> set (m_dispatch_async_list (reset x l)) \<and>
      isRemoved (reset x l) x) \<and>
   (m_dispatch_async_list l = [] \<longrightarrow>
      m_dispatch_async_list (call a l) = [] \<and>
      m_dispatch_async_list (run_handler acts l) = [] \<and>
      m_dispatch_async_list (waitForEvents env info l) = [] \<and>
      (\<forall>b l1. dispatch_timers env l = Inr (b, l1) \<longrightarrow> m_dispatch_async_list l1 = []) \<and>
      (\<forall>l1. prepare_timers_for_dispatch now l = Inr l1 \<longrightarrow> m_dispatch_async_list l1 = []) \<and>
      (\<forall>i l1. prepare_timers_for_wait l = Inr (i, l1) \<longrightarrow> m_dispatch_async_list l1 = []) \<and>
      (\<forall>l1. dispatchEvents env l = Inr (True, l1) \<longrightarrow> m_dispatch_async_list l1 = []))"
proof -
  have A0: "dispatch_async_signals env l = Inl AssertionFailed" if "m_dispatch_async_list l \<noteq> []"
    using that by (simp add: dispatch_async_signals_def isLonely_def)
  have A: "(\<exists>T. trace l' = trace l @ T \<and>
         m_dispatch_async_list l'
           = filter (\<lambda>x. AsyncHandler x \<notin> set T \<and> Call (ResetSignal x) \<notin> set T)
               (m_pending_async_list l)) \<and>
      (\<forall>x. x \<in> set (m_dispatch_async_list l') \<longrightarrow> \<not> isRemoved l' x) \<and>
      (ok \<longrightarrow> m_dispatch_async_list l' = []) \<and> (\<not> ok \<longrightarrow> m_stop l') \<and> asig_wf l'"
    if wf: "asig_wf l" and r: "dispatch_async_signals env l = Inr (ok, l')"
  proof -
    from r have e: "m_dispatch_async_list l = []"
      by (auto simp: dispatch_async_signals_def isLonely_def split: if_splits)
    show ?thesis
    proof (cases "m_pending_async_list l = []")
      case True
      with r e have "l' = l" "ok" by (auto simp: dispatch_async_signals_def isLonely_def)
      with True e wf show ?thesis by simp
    next
      case False
      let ?l1 = "l\<lparr>m_dispatch_async_list := m_pending_async_list l, m_pending_async_list := []\<rparr>"
      from False r e have r1: "dispatch_async_loop env ?l1 = Inr (ok, l')"
        by (simp add: dispatch_async_signals_def isLonely_def)
      have wf1: "asig_wf ?l1" using wf e by (simp add: asig_wf_def)
      have wf': "asig_wf l'" by (rule dispatch_async_loop_wf [OF wf1 r1])
      then have "\<forall>x. x \<in> set (m_dispatch_async_list l') \<longrightarrow> \<not> isRemoved l' x"
        by (simp add: asig_wf_def isRemoved_def)
      with dispatch_async_loop_contents [OF wf1 r1] dispatch_async_loop_lonely [OF r1] wf'
      show ?thesis by simp
    qed
  qed
  have R: "(a \<noteq> ResetSignal x \<longrightarrow> x \<in> set (m_dispatch_async_list (call a l))) \<and>
      x \<notin> set (m_dispatch_async_list (reset x l)) \<and> isRemoved (reset x l) x"
    if wf: "asig_wf l" and x: "x \<in> set (m_dispatch_async_list l)"
  proof -
    from wf x have "\<not> asig_removed l x" by (simp add: asig_wf_def)
    then have "x \<notin> set (m_dispatch_async_list (reset x l)) \<and> isRemoved (reset x l) x"
      by (simp add: call_defs)
    with call_dispatch_keeps [of a x l] x show ?thesis by blast
  qed
  have B: "m_dispatch_async_list l1 = []"
    if "m_dispatch_async_list l = []" "dispatch_timers env l = Inr (b, l1)" for b l1
    using dispatch_timers_dispatch_list [OF that(2)] that(1) by simp
  have C: "m_dispatch_async_list l1 = m_dispatch_async_list l"
    if "prepare_timers_for_dispatch now l = Inr l1" for l1
    using that visit_timers_async [of _ l l1]
    by (auto simp: prepare_timers_for_dispatch_def Let_def split: sum.splits if_splits)
  have D: "m_dispatch_async_list l1 = m_dispatch_async_list l"
    if "prepare_timers_for_wait l = Inr (i, l1)" for i l1
    using that prepare_timers_for_wait_loop_async [of l]
    by (auto simp: prepare_timers_for_wait_def Let_def split: sum.splits)
  have E: "m_dispatch_async_list (call a l) = []" if "m_dispatch_async_list l = []"
    using call_dispatch_subset [of a l] that by simp
  have F: "m_dispatch_async_list (run_handler acts l) = []" if "m_dispatch_async_list l = []"
    using run_handler_dispatch_subset [of acts l] that by simp
  have G: "m_dispatch_async_list (waitForEvents env info l) = m_dispatch_async_list l"
    by (simp add: waitForEvents_def Let_def fold_signal_dispatch_list)
  have H: "m_dispatch_async_list l1 = []"
    if "m_dispatch_async_list l = []" "dispatchEvents env l = Inr (True, l1)" for l1
    using that dispatch_os_events_lonely
      [of "l\<lparr>trace := trace l @ [DispatchEvents]\<rparr>" env _ l1]
    by (simp add: dispatchEvents_def Let_def)
  have P1: "m_dispatch_async_list l \<noteq> [] \<longrightarrow> dispatch_async_signals env l = Inl AssertionFailed"
    using A0 by blast
  have P2: "asig_wf l \<and> dispatch_async_signals env l = Inr (ok, l') \<longrightarrow>
      (\<exists>T. trace l' = trace l @ T \<and>
         m_dispatch_async_list l'
           = filter (\<lambda>x. AsyncHandler x \<notin> set T \<and> Call (ResetSignal x) \<notin> set T)
               (m_pending_async_list l)) \<and>
      (\<forall>x. x \<in> set (m_dispatch_async_list l') \<longrightarrow> \<not> isRemoved l' x) \<and>
      (ok \<longrightarrow> m_dispatch_async_list l' = []) \<and>
      (\<not> ok \<longrightarrow> m_stop l') \<and>
      asig_wf l'"
    using A by blast
  have P3: "asig_wf l \<and> x \<in> set (m_dispatch_async_list l) \<longrightarrow>
      (a \<noteq> ResetSignal x \<longrightarrow> x \<in> set (m_dispatch_async_list (call a l))) \<and>
      x \<notin> set (m_dispatch_async_list (reset x l)) \<and>
      isRemoved (reset x l) x"
    using R by blast
  have P4: "m_dispatch_async_list l = [] \<longrightarrow>
      m_dispatch_async_list (call a l) = [] \<and>
      m_dispatch_async_list (run_handler acts l) = [] \<and>
      m_dispatch_async_list (waitForEvents env info l) = [] \<and>
      (\<forall>b l1. dispatch_timers env l = Inr (b, l1) \<longrightarrow> m_dispatch_async_list l1 = []) \<and>
      (\<forall>l1. prepare_timers_for_dispatch now l = Inr l1 \<longrightarrow> m_dispatch_async_list l1 = []) \<and>
      (\<forall>i l1. prepare_timers_for_wait l = Inr (i, l1) \<longrightarrow> m_dispatch_async_list l1 = []) \<and>
      (\<forall>l1. dispatchEvents env l = Inr (True, l1) \<longrightarrow> m_dispatch_async_list l1 = [])"
  proof
    assume e: "m_dispatch_async_list l = []"
    have "m_dispatch_async_list l1 = []" if "prepare_timers_for_dispatch now l = Inr l1" for l1
      using C [OF that] e by simp
    moreover have "m_dispatch_async_list l1 = []" if "prepare_timers_for_wait l = Inr (i, l1)" for i l1
      using D [OF that] e by simp
    moreover have "m_dispatch_async_list (waitForEvents env info l) = []"
      using G e by simp
    ultimately show "m_dispatch_async_list (call a l) = [] \<and>
      m_dispatch_async_list (run_handler acts l) = [] \<and>
      m_dispatch_async_list (waitForEvents env info l) = [] \<and>
      (\<forall>b l1. dispatch_timers env l = Inr (b, l1) \<longrightarrow> m_dispatch_async_list l1 = []) \<and>
      (\<forall>l1. prepare_timers_for_dispatch now l = Inr l1 \<longrightarrow> m_dispatch_async_list l1 = []) \<and>
      (\<forall>i l1. prepare_timers_for_wait l = Inr (i, l1) \<longrightarrow> m_dispatch_async_list l1 = []) \<and>
      (\<forall>l1. dispatchEvents env l = Inr (True, l1) \<longrightarrow> m_dispatch_async_list l1 = [])"
      using B [OF e] E [OF e] F [OF e] H [OF e] by blast
  qed
  from P1 P2 P3 P4 show ?thesis by (intro conjI)
qed

theorem dispatch_list_contents_witness:
  "\<not> isl (dispatch_async_signals example_stop_env example_signalled) \<and>
   \<not> fst (projr (dispatch_async_signals example_stop_env example_signalled)) \<and>
   m_dispatch_async_list (snd (projr (dispatch_async_signals example_stop_env example_signalled)))
     = [2] \<and>
   trace (snd (projr (dispatch_async_signals example_stop_env example_signalled)))
     = trace example_signalled @ [AsyncHandler 0, Call Stop] \<and>
   \<not> isRemoved (snd (projr (dispatch_async_signals example_stop_env example_signalled))) 2 \<and>
   m_stop (snd (projr (dispatch_async_signals example_stop_env example_signalled))) \<and>
   isRemoved (reset 2 (snd (projr (dispatch_async_signals example_stop_env example_signalled)))) 2 \<and>
   dispatch_async_signals example_env
     (snd (projr (dispatch_async_signals example_stop_env example_signalled)))
     = Inl AssertionFailed \<and>
   \<not> isl (dispatch_async_signals example_env example_signalled) \<and>
   fst (projr (dispatch_async_signals example_env example_signalled)) \<and>
   m_dispatch_async_list (snd (projr (dispatch_async_signals example_env example_signalled))) = [] \<and>
   m_dispatch_async_list (call (Signal 5) example_signalled) = []"
proof -
  let ?X = "dispatch_async_signals example_stop_env example_signalled"
  let ?Y = "dispatch_async_signals example_env example_signalled"
  have wf: "asig_wf example_signalled"
    by (auto simp: asig_wf_def example_signalled_fields)
  have evX: "\<not> isl ?X \<and> \<not> fst (projr ?X) \<and> m_dispatch_async_list (snd (projr ?X)) = [2] \<and>
      trace (snd (projr ?X)) = trace example_signalled @ [AsyncHandler 0, Call Stop]"
    by (simp add: dispatch_async_signals_def dispatch_async_loop.simps isLonely_def isRemoved_def
      example_signalled_fields example_stop_env_def example_env_def m_handler_def
      run_handler_def call_def stop_def markRemoved_def asig_list_remove_def Let_def)
  then have X: "?X = Inr (fst (projr ?X), snd (projr ?X))"
    by (cases ?X) (simp_all add: prod_eq_iff)
  have evY: "\<not> isl ?Y \<and> fst (projr ?Y)"
    by (simp add: dispatch_async_signals_def dispatch_async_loop.simps isLonely_def isRemoved_def
      example_signalled_fields example_env_def m_handler_def run_handler_def call_def
      signal_def initBefore_pending_def signalToCheckAsyncSignals_def markRemoved_def
      asig_list_remove_def Let_def)
  then have Y: "?Y = Inr (fst (projr ?Y), snd (projr ?Y))"
    by (cases ?Y) (simp_all add: prod_eq_iff)
  note thX = dispatch_list_contents [of example_signalled example_stop_env "fst (projr ?X)"
      "snd (projr ?X)", THEN conjunct2, THEN conjunct1, rule_format, OF conjI [OF wf X]]
  from thX evX have 1: "\<not> isRemoved (snd (projr ?X)) 2" "m_stop (snd (projr ?X))"
    "asig_wf (snd (projr ?X))"
    by simp_all
  have m: "2 \<in> set (m_dispatch_async_list (snd (projr ?X)))" using evX by simp
  note thR = dispatch_list_contents [of "snd (projr ?X)" example_env _ _ 2,
      THEN conjunct2, THEN conjunct2, THEN conjunct1, rule_format, OF conjI [OF 1(3) m]]
  then have 2: "isRemoved (reset 2 (snd (projr ?X))) 2" by simp
  have ne: "m_dispatch_async_list (snd (projr ?X)) \<noteq> []" using evX by simp
  note 4 = dispatch_list_contents [of "snd (projr ?X)" example_env,
      THEN conjunct1, rule_format, OF ne]
  note thY = dispatch_list_contents [of example_signalled example_env "fst (projr ?Y)"
      "snd (projr ?Y)", THEN conjunct2, THEN conjunct1, rule_format, OF conjI [OF wf Y]]
  from thY evY have 3: "m_dispatch_async_list (snd (projr ?Y)) = []" by simp
  have e: "m_dispatch_async_list example_signalled = []" by (simp add: example_signalled_fields)
  note thL = dispatch_list_contents [of example_signalled example_env _ _ _ "Signal 5",
      THEN conjunct2, THEN conjunct2, THEN conjunct2, rule_format, OF e]
  then have 5: "m_dispatch_async_list (call (Signal 5) example_signalled) = []" by simp
  from evX evY 1 2 3 4 5 show ?thesis by simp
qed

end
